theory Spec2Isabelle
  imports Complex_Main "HOL-Library.Word" "HOL-Library.Multiset"
begin

unbundle bit_operations_syntax

section \<open>Funnel hash table: the data model\<close>

text \<open>
  The development embeds \<^verbatim>\<open>src/funnel_hash/_funnel_hash.pyx\<close>.

  Keys and values are arbitrary Python objects, and \<^verbatim>\<open>None\<close> is one of them: an object
  is a \<open>pyobj\<close>, with \<open>PyNone\<close> for \<^verbatim>\<open>None\<close>. The field \<^verbatim>\<open>value\<close> of \<^verbatim>\<open>_Entry\<close> is
  called \<open>val\<close> here.

  The code compares keys with Python's \<^verbatim>\<open>==\<close> and hashes them with Python's
  \<^verbatim>\<open>hash\<close>. Both belong to the keys, not to the table, and both are parameters of the
  model: \<open>E a b\<close> is the truth value of \<^verbatim>\<open>a == b\<close> and \<open>H a\<close> is \<^verbatim>\<open>hash(a)\<close>.
  Nothing is assumed of them. In particular \<open>E\<close> need not be reflexive:
  \<^verbatim>\<open>float('nan') == float('nan')\<close> is false. For integers, strings and \<^verbatim>\<open>None\<close>,
  \<^verbatim>\<open>==\<close> is equality of the values, and the examples on such keys take \<open>(=)\<close> for
  \<open>E\<close>.

  C \<^verbatim>\<open>double\<close>s are idealised as real numbers: \<^verbatim>\<open>log2\<close>, \<^verbatim>\<open>log\<close>, \<^verbatim>\<open>ceil\<close> and
  \<^verbatim>\<open>pow\<close> are the mathematical functions and the arithmetic is exact, without rounding,
  infinities or NaN. The constants and the layout that the code computes can differ from
  those of the model where the doubles differ from the reals: by rounding
  (\<^verbatim>\<open>0.3 * 10\<close> is \<^verbatim>\<open>3.0\<close>), by overflow (\<^verbatim>\<open>1 / delta\<close> is infinite for a sub-normal
  \<^verbatim>\<open>delta\<close>) and in \<^verbatim>\<open>libm\<close>.

  C \<^verbatim>\<open>int\<close>s are integers. Where a C \<^verbatim>\<open>int\<close> is narrowed or can wrap on a table the
  constructor returns, the 32-bit wrap-around is written out (\<open>to_cint\<close>): in
  \<^verbatim>\<open>_hash\<close>, in the probe sum \<^verbatim>\<open>_hash_special(key) + j\<close> and in
  \<^verbatim>\<open>self.capacity + 1\<close>. The other sums and products stay within the capacity, which is
  less than \<open>2^31\<close>.
\<close>

datatype 'a pyobj = PyNone | Py 'a

record ('k, 'v) entry =
  key :: "'k pyobj"
  val :: "'v pyobj"
  occupied :: bool

text \<open>\<^verbatim>\<open>_Entry(key, value, occupied)\<close>, and \<^verbatim>\<open>_Entry()\<close> with its defaults.\<close>

definition Entry :: "'k pyobj \<Rightarrow> 'v pyobj \<Rightarrow> bool \<Rightarrow> ('k, 'v) entry" where
  "Entry k v occ = \<lparr>key = k, val = v, occupied = occ\<rparr>"

definition Entry0 :: "('k, 'v) entry" where
  "Entry0 = Entry PyNone PyNone False"

text \<open>
  The exceptions the code raises. \<open>HashTableFull\<close> is
  \<^verbatim>\<open>RuntimeError("Hash table is full.")\<close> and \<open>SpecialArrayFull\<close> is
  \<^verbatim>\<open>RuntimeError("Special array insertion failed; table is full.")\<close>.
  \<open>OverflowError\<close> is the argument conversion of \<^verbatim>\<open>int capacity\<close>.
\<close>

datatype error =
    ValueError
  | OverflowError
  | HashTableFull
  | SpecialArrayFull
  | KeyError
  | IndexError
  | ZeroDivisionError

text \<open>The sentinel \<^verbatim>\<open>_NO_FALLBACK\<close> of \<^verbatim>\<open>get\<close> and \<^verbatim>\<open>pop\<close>.\<close>

datatype 'a fallback = NoFallback | Fallback 'a

record ('k, 'v) table =
  capacity :: int
  num_inserts :: int
  special_occupancy :: int
  max_inserts :: int
  alpha :: int
  beta :: int
  special_size :: int
  primary_size :: int
  special_salt :: int
  delta :: real
  level_salts :: "int list"
  level_bucket_counts :: "int list"
  levels :: "('k, 'v) entry list list"
  special_array :: "('k, 'v) entry list"

subsection \<open>Python and C primitives\<close>

text \<open>List indexing with bounds check and wrap-around of negative indices.\<close>

definition getitem :: "'a list \<Rightarrow> int \<Rightarrow> error + 'a" where
  "getitem xs i =
     (let n = int (length xs); j = (if i < 0 then i + n else i)
      in if 0 \<le> j \<and> j < n then Inr (xs ! nat j) else Inl IndexError)"

definition setitem :: "'a list \<Rightarrow> int \<Rightarrow> 'a \<Rightarrow> error + 'a list" where
  "setitem xs i x =
     (let n = int (length xs); j = (if i < 0 then i + n else i)
      in if 0 \<le> j \<and> j < n then Inr (xs[nat j := x]) else Inl IndexError)"

text \<open>\<^verbatim>\<open>range(a, b)\<close> over C ints.\<close>

definition py_range :: "int \<Rightarrow> int \<Rightarrow> int list" where
  "py_range a b = map (\<lambda>d. a + int d) [0..<nat (b - a)]"

text \<open>A value stored into a C \<^verbatim>\<open>int\<close>: the low 32 bits, read as two's complement.\<close>

definition to_cint :: "int \<Rightarrow> int" where
  "to_cint x = sint (word_of_int x :: 32 word)"

text \<open>
  \<^verbatim>\<open>int(x)\<close> of a float truncates towards zero. Where the argument is \<^verbatim>\<open>ceil(y)\<close>,
  a float without fraction, \<^verbatim>\<open>int(ceil(y))\<close> is written \<open>\<lceil>y\<rceil>\<close>.
\<close>

definition py_int :: "real \<Rightarrow> int" where
  "py_int x = (if 0 \<le> x then \<lfloor>x\<rfloor> else \<lceil>x\<rceil>)"

text \<open>\<^verbatim>\<open>round(x)\<close> of a float rounds to the nearest integer, a tie to the even one.\<close>

definition py_round :: "real \<Rightarrow> int" where
  "py_round x =
     (let f = \<lfloor>x\<rfloor>; r = x - of_int f
      in if r < 1 / 2 then f else if 1 / 2 < r then f + 1
         else if even f then f else f + 1)"

subsection \<open>Hashing\<close>

text \<open>
  \<open>H\<close> is Python's \<^verbatim>\<open>hash\<close>, a parameter of the model. \<^verbatim>\<open>_hash\<close> stores
  \<^verbatim>\<open>hash(key) ^ salt\<close> into a C \<^verbatim>\<open>int\<close> and masks it to 31 bits.
\<close>

definition fht_hash :: "('k pyobj \<Rightarrow> int) \<Rightarrow> 'k pyobj \<Rightarrow> int \<Rightarrow> int" where
  "fht_hash H k salt = (let hashed = to_cint (H k XOR salt) in hashed AND 0x7FFFFFFF)"

definition fht_hash_level ::
  "('k pyobj \<Rightarrow> int) \<Rightarrow> ('k, 'v) table \<Rightarrow> 'k pyobj \<Rightarrow> int \<Rightarrow> error + int" where
  "fht_hash_level H t k level_index =
     (case getitem (level_salts t) level_index of
        Inl e \<Rightarrow> Inl e
      | Inr salt \<Rightarrow> Inr (fht_hash H k salt))"

definition fht_hash_special :: "('k pyobj \<Rightarrow> int) \<Rightarrow> ('k, 'v) table \<Rightarrow> 'k pyobj \<Rightarrow> int" where
  "fht_hash_special H t k = fht_hash H k (special_salt t)"

text \<open>
  \<^verbatim>\<open>max(1, int(ceil(log(log(self.capacity + 1) + 1))))\<close>; the sum
  \<^verbatim>\<open>self.capacity + 1\<close> is a C \<^verbatim>\<open>int\<close>, which wraps for the capacity \<open>2^31 - 1\<close>
  alone. The general theorems below hold whatever the limit is.
\<close>

definition probe_limit :: "int \<Rightarrow> int" where
  "probe_limit cap =
     max 1 \<lceil>ln (ln (real_of_int (to_cint (cap + 1))) + 1)\<rceil>"

section \<open>Probing\<close>

text \<open>
  \<^verbatim>\<open>insert\<close>, \<^verbatim>\<open>get\<close> and \<^verbatim>\<open>__delitem__\<close> walk the same slots in the same order:
  for every level in turn the \<^verbatim>\<open>beta\<close> slots of the key's bucket, then
  \<^verbatim>\<open>probe_limit\<close> slots of the special array. They differ in the test \<open>P\<close> that stops the
  walk and in what they do with the slot found. The walk is written once, with the test as
  a parameter; it returns the slot where it stopped together with the entry read there.
\<close>

datatype slot_ref = LevelSlot nat int | SpecialSlot int

text \<open>The inner loop \<^verbatim>\<open>for idx in range(start, end)\<close>, reading \<^verbatim>\<open>self.levels[i][idx]\<close>.\<close>

fun scan_bucket ::
  "(('k, 'v) entry \<Rightarrow> bool) \<Rightarrow> ('k, 'v) entry list list \<Rightarrow> nat \<Rightarrow> int list
     \<Rightarrow> error + (int \<times> ('k, 'v) entry) option" where
  "scan_bucket P lvls i [] = Inr None"
| "scan_bucket P lvls i (idx # rest) =
     (case getitem lvls (int i) of
        Inl e \<Rightarrow> Inl e
      | Inr lv \<Rightarrow>
          (case getitem lv idx of
             Inl e \<Rightarrow> Inl e
           | Inr ent \<Rightarrow> if P ent then Inr (Some (idx, ent)) else scan_bucket P lvls i rest))"

text \<open>The outer loop \<^verbatim>\<open>for i in range(len(self.levels))\<close>.\<close>

fun scan_levels ::
  "('k pyobj \<Rightarrow> int) \<Rightarrow> (('k, 'v) entry \<Rightarrow> bool) \<Rightarrow> ('k, 'v) table \<Rightarrow> 'k pyobj \<Rightarrow> nat list
     \<Rightarrow> error + (slot_ref \<times> ('k, 'v) entry) option" where
  "scan_levels H P t k [] = Inr None"
| "scan_levels H P t k (i # is) =
     (case fht_hash_level H t k (int i) of
        Inl e \<Rightarrow> Inl e
      | Inr h \<Rightarrow>
          (case getitem (level_bucket_counts t) (int i) of
             Inl e \<Rightarrow> Inl e
           | Inr bucket_count \<Rightarrow>
               if bucket_count = 0 then Inl ZeroDivisionError
               else
                 let bucket_index = h mod bucket_count;
                     start = bucket_index * beta t;
                     end = start + beta t
                 in (case scan_bucket P (levels t) i (py_range start end) of
                       Inl e \<Rightarrow> Inl e
                     | Inr (Some (idx, ent)) \<Rightarrow> Inr (Some (LevelSlot i idx, ent))
                     | Inr None \<Rightarrow> scan_levels H P t k is)))"

text \<open>The loop \<^verbatim>\<open>for j in range(probe_limit)\<close> over the special array.\<close>

fun scan_special ::
  "('k pyobj \<Rightarrow> int) \<Rightarrow> (('k, 'v) entry \<Rightarrow> bool) \<Rightarrow> ('k, 'v) table \<Rightarrow> 'k pyobj \<Rightarrow> int
     \<Rightarrow> int list \<Rightarrow> error + (slot_ref \<times> ('k, 'v) entry) option" where
  "scan_special H P t k sz [] = Inr None"
| "scan_special H P t k sz (j # js) =
     (if sz = 0 then Inl ZeroDivisionError
      else
        let idx = to_cint (fht_hash_special H t k + j) mod sz
        in (case getitem (special_array t) idx of
              Inl e \<Rightarrow> Inl e
            | Inr ent \<Rightarrow>
                if P ent then Inr (Some (SpecialSlot idx, ent))
                else scan_special H P t k sz js))"

definition find_slot ::
  "('k pyobj \<Rightarrow> int) \<Rightarrow> (('k, 'v) entry \<Rightarrow> bool) \<Rightarrow> ('k, 'v) table \<Rightarrow> 'k pyobj
     \<Rightarrow> error + (slot_ref \<times> ('k, 'v) entry) option" where
  "find_slot H P t k =
     (case scan_levels H P t k [0..<length (levels t)] of
        Inl e \<Rightarrow> Inl e
      | Inr (Some found) \<Rightarrow> Inr (Some found)
      | Inr None \<Rightarrow>
          (let sz = int (length (special_array t));
               limit = probe_limit (capacity t)
           in scan_special H P t k sz (py_range 0 limit)))"

text \<open>The assignment \<^verbatim>\<open>self.levels[i][idx] = e\<close> or \<^verbatim>\<open>self.special_array[idx] = e\<close>.\<close>

fun store_entry ::
  "('k, 'v) table \<Rightarrow> slot_ref \<Rightarrow> ('k, 'v) entry \<Rightarrow> error + ('k, 'v) table" where
  "store_entry t (LevelSlot i idx) e =
     (case getitem (levels t) (int i) of
        Inl er \<Rightarrow> Inl er
      | Inr lv \<Rightarrow>
          (case setitem lv idx e of
             Inl er \<Rightarrow> Inl er
           | Inr lv' \<Rightarrow> Inr (t\<lparr>levels := (levels t)[i := lv']\<rparr>)))"
| "store_entry t (SpecialSlot idx) e =
     (case setitem (special_array t) idx e of
        Inl er \<Rightarrow> Inl er
      | Inr sp' \<Rightarrow> Inr (t\<lparr>special_array := sp'\<rparr>))"

section \<open>The operations\<close>

text \<open>
  A method that mutates the table returns its outcome (an exception or a result) and the
  table as the call leaves it.
\<close>

definition fht_insert ::
  "('k pyobj \<Rightarrow> 'k pyobj \<Rightarrow> bool) \<Rightarrow> ('k pyobj \<Rightarrow> int) \<Rightarrow> 'k pyobj \<Rightarrow> 'v pyobj
     \<Rightarrow> ('k, 'v) table \<Rightarrow> (error + unit) \<times> ('k, 'v) table" where
  "fht_insert E H k v t =
     (if max_inserts t \<le> num_inserts t then (Inl HashTableFull, t)
      else
        (case find_slot H (\<lambda>e. \<not> occupied e \<or> E (key e) k) t k of
           Inl er \<Rightarrow> (Inl er, t)
         | Inr None \<Rightarrow> (Inl SpecialArrayFull, t)
         | Inr (Some (LevelSlot i idx, ent)) \<Rightarrow>
             (case store_entry t (LevelSlot i idx) (Entry k v True) of
                Inl er \<Rightarrow> (Inl er, t)
              | Inr t' \<Rightarrow> (Inr (), t'\<lparr>num_inserts := num_inserts t' + 1\<rparr>))
         | Inr (Some (SpecialSlot idx, ent)) \<Rightarrow>
             (case store_entry t (SpecialSlot idx) (Entry k v True) of
                Inl er \<Rightarrow> (Inl er, t)
              | Inr t' \<Rightarrow>
                  (Inr (), t'\<lparr>special_occupancy := special_occupancy t' + 1,
                              num_inserts := num_inserts t' + 1\<rparr>))))"

definition fht_get ::
  "('k pyobj \<Rightarrow> 'k pyobj \<Rightarrow> bool) \<Rightarrow> ('k pyobj \<Rightarrow> int) \<Rightarrow> 'k pyobj \<Rightarrow> 'v pyobj fallback
     \<Rightarrow> ('k, 'v) table \<Rightarrow> error + 'v pyobj" where
  "fht_get E H k default_value t =
     (case find_slot H (\<lambda>e. occupied e \<and> E (key e) k) t k of
        Inl er \<Rightarrow> Inl er
      | Inr (Some (r, ent)) \<Rightarrow> Inr (val ent)
      | Inr None \<Rightarrow>
          (case default_value of NoFallback \<Rightarrow> Inl KeyError | Fallback d \<Rightarrow> Inr d))"

definition fht_items :: "('k, 'v) table \<Rightarrow> ('k pyobj \<times> 'v pyobj) list" where
  "fht_items t =
     concat (map (\<lambda>level. map (\<lambda>e. (key e, val e)) (filter occupied level)) (levels t))
     @ map (\<lambda>e. (key e, val e)) (filter occupied (special_array t))"

definition fht_keys :: "('k, 'v) table \<Rightarrow> 'k pyobj list" where
  "fht_keys t = map fst (fht_items t)"

definition fht_values :: "('k, 'v) table \<Rightarrow> 'v pyobj list" where
  "fht_values t = map snd (fht_items t)"

definition fht_getitem ::
  "('k pyobj \<Rightarrow> 'k pyobj \<Rightarrow> bool) \<Rightarrow> ('k pyobj \<Rightarrow> int) \<Rightarrow> 'k pyobj \<Rightarrow> ('k, 'v) table
     \<Rightarrow> error + 'v pyobj" where
  "fht_getitem E H k t = fht_get E H k NoFallback t"

definition fht_setitem ::
  "('k pyobj \<Rightarrow> 'k pyobj \<Rightarrow> bool) \<Rightarrow> ('k pyobj \<Rightarrow> int) \<Rightarrow> 'k pyobj \<Rightarrow> 'v pyobj
     \<Rightarrow> ('k, 'v) table \<Rightarrow> (error + unit) \<times> ('k, 'v) table" where
  "fht_setitem E H k v t = fht_insert E H k v t"

text \<open>\<^verbatim>\<open>__contains__\<close> catches \<^verbatim>\<open>KeyError\<close> only.\<close>

definition fht_contains ::
  "('k pyobj \<Rightarrow> 'k pyobj \<Rightarrow> bool) \<Rightarrow> ('k pyobj \<Rightarrow> int) \<Rightarrow> 'k pyobj \<Rightarrow> ('k, 'v) table
     \<Rightarrow> error + bool" where
  "fht_contains E H k t =
     (case fht_get E H k NoFallback t of
        Inr v \<Rightarrow> Inr True
      | Inl KeyError \<Rightarrow> Inr False
      | Inl er \<Rightarrow> Inl er)"

definition fht_len :: "('k, 'v) table \<Rightarrow> int" where
  "fht_len t = num_inserts t"

definition fht_delitem ::
  "('k pyobj \<Rightarrow> 'k pyobj \<Rightarrow> bool) \<Rightarrow> ('k pyobj \<Rightarrow> int) \<Rightarrow> 'k pyobj \<Rightarrow> ('k, 'v) table
     \<Rightarrow> (error + unit) \<times> ('k, 'v) table" where
  "fht_delitem E H k t =
     (case find_slot H (\<lambda>e. occupied e \<and> E (key e) k) t k of
        Inl er \<Rightarrow> (Inl er, t)
      | Inr None \<Rightarrow> (Inl KeyError, t)
      | Inr (Some (LevelSlot i idx, ent)) \<Rightarrow>
          (case store_entry t (LevelSlot i idx) Entry0 of
             Inl er \<Rightarrow> (Inl er, t)
           | Inr t' \<Rightarrow> (Inr (), t'\<lparr>num_inserts := num_inserts t' - 1\<rparr>))
      | Inr (Some (SpecialSlot idx, ent)) \<Rightarrow>
          (case store_entry t (SpecialSlot idx) Entry0 of
             Inl er \<Rightarrow> (Inl er, t)
           | Inr t' \<Rightarrow>
               (Inr (), t'\<lparr>special_occupancy := special_occupancy t' - 1,
                           num_inserts := num_inserts t' - 1\<rparr>)))"

text \<open>
  \<^verbatim>\<open>pop\<close>: \<^verbatim>\<open>value = self[key]; del self[key]; return value\<close>, a \<^verbatim>\<open>KeyError\<close> of
  either statement handled by the fallback.
\<close>

definition on_KeyError ::
  "'v pyobj fallback \<Rightarrow> ('k, 'v) table \<Rightarrow> (error + 'v pyobj) \<times> ('k, 'v) table" where
  "on_KeyError dflt t = (case dflt of NoFallback \<Rightarrow> (Inl KeyError, t) | Fallback d \<Rightarrow> (Inr d, t))"

definition fht_pop ::
  "('k pyobj \<Rightarrow> 'k pyobj \<Rightarrow> bool) \<Rightarrow> ('k pyobj \<Rightarrow> int) \<Rightarrow> 'k pyobj \<Rightarrow> 'v pyobj fallback
     \<Rightarrow> ('k, 'v) table \<Rightarrow> (error + 'v pyobj) \<times> ('k, 'v) table" where
  "fht_pop E H k dflt t =
     (case fht_getitem E H k t of
        Inl KeyError \<Rightarrow> on_KeyError dflt t
      | Inl er \<Rightarrow> (Inl er, t)
      | Inr v \<Rightarrow>
          (case fht_delitem E H k t of
             (Inl KeyError, t') \<Rightarrow> on_KeyError dflt t'
           | (Inl er, t') \<Rightarrow> (Inl er, t')
           | (Inr u, t') \<Rightarrow> (Inr v, t')))"

text \<open>\<^verbatim>\<open>clear\<close>: \<^verbatim>\<open>keys = list(self.keys())\<close>, then \<^verbatim>\<open>del self[key]\<close> for each.\<close>

fun delete_each ::
  "('k pyobj \<Rightarrow> 'k pyobj \<Rightarrow> bool) \<Rightarrow> ('k pyobj \<Rightarrow> int) \<Rightarrow> 'k pyobj list \<Rightarrow> ('k, 'v) table
     \<Rightarrow> (error + unit) \<times> ('k, 'v) table" where
  "delete_each E H [] t = (Inr (), t)"
| "delete_each E H (k # ks) t =
     (case fht_delitem E H k t of
        (Inl er, t') \<Rightarrow> (Inl er, t')
      | (Inr u, t') \<Rightarrow> delete_each E H ks t')"

definition fht_clear ::
  "('k pyobj \<Rightarrow> 'k pyobj \<Rightarrow> bool) \<Rightarrow> ('k pyobj \<Rightarrow> int) \<Rightarrow> ('k, 'v) table
     \<Rightarrow> (error + unit) \<times> ('k, 'v) table" where
  "fht_clear E H t = delete_each E H (fht_keys t) t"

section \<open>Construction\<close>

text \<open>
  The loop of \<^verbatim>\<open>__init__\<close> that lays out the levels. \<open>rnd n\<close> is the value of the
  \<open>n\<close>-th call of \<^verbatim>\<open>next_positive_random()\<close>, an integer between 0 and \<open>2^31 - 1\<close>;
  every level draws one salt and the special array draws the next.
\<close>

fun build_levels ::
  "real \<Rightarrow> int \<Rightarrow> (nat \<Rightarrow> int) \<Rightarrow> nat list \<Rightarrow> int
     \<Rightarrow> int list \<times> ('k, 'v) entry list list \<times> int list
     \<Rightarrow> int list \<times> ('k, 'v) entry list list \<times> int list" where
  "build_levels a1 b rnd [] remaining_buckets acc = acc"
| "build_levels a1 b rnd (i # is) remaining_buckets (counts, lvls, salts) =
     (let a_i = max 1 (py_round (a1 * (3 / 4) ^ i))
      in if remaining_buckets \<le> 0 \<or> a_i \<le> 0 then (counts, lvls, salts)
         else
           let a_i = min a_i remaining_buckets
           in build_levels a1 b rnd is (remaining_buckets - a_i)
                (counts @ [a_i],
                 lvls @ [replicate (nat (a_i * b)) Entry0],
                 salts @ [rnd (length salts)]))"

text \<open>The body of \<^verbatim>\<open>__init__\<close> up to the special array and its salt.\<close>

definition fht_new :: "int \<Rightarrow> real \<Rightarrow> (nat \<Rightarrow> int) \<Rightarrow> error + ('k, 'v) table" where
  "fht_new cap dl rnd =
     (if cap < - (2 ^ 31) \<or> 2 ^ 31 \<le> cap then Inl OverflowError
      else if cap < 1 then Inl ValueError
      else if \<not> (0 < dl \<and> dl < 1) then Inl ValueError
      else
        let max_ins = cap - py_int (dl * of_int cap);
            al = \<lceil>4 * log 2 (1 / dl) + 10\<rceil>;
            be = \<lceil>2 * log 2 (1 / dl)\<rceil>;
            ssize = max 1 (py_int (3 * dl * of_int cap / 4));
            psize = cap - ssize
        in if be = 0 then Inl ZeroDivisionError
           else
             let total_buckets = psize div be;
                 a1 = (if 0 < al then of_int total_buckets / (4 * (1 - (3 / 4) ^ nat al))
                       else of_int total_buckets);
                 (counts, lvls, salts) =
                    build_levels a1 be rnd [0..<nat al] total_buckets ([], [], [])
             in Inr \<lparr>capacity = cap, num_inserts = 0, special_occupancy = 0,
                     max_inserts = max_ins, alpha = al, beta = be, special_size = ssize,
                     primary_size = psize, special_salt = rnd (length salts), delta = dl,
                     level_salts = salts, level_bucket_counts = counts, levels = lvls,
                     special_array = replicate (nat ssize) Entry0\<rparr>)"

text \<open>The loop \<^verbatim>\<open>for key, value in data: self.insert(key, value)\<close>.\<close>

fun insert_each ::
  "('k pyobj \<Rightarrow> 'k pyobj \<Rightarrow> bool) \<Rightarrow> ('k pyobj \<Rightarrow> int) \<Rightarrow> ('k pyobj \<times> 'v pyobj) list
     \<Rightarrow> ('k, 'v) table \<Rightarrow> (error + unit) \<times> ('k, 'v) table" where
  "insert_each E H [] t = (Inr (), t)"
| "insert_each E H ((k, v) # kvs) t =
     (case fht_insert E H k v t of
        (Inl er, t') \<Rightarrow> (Inl er, t')
      | (Inr u, t') \<Rightarrow> insert_each E H kvs t')"

text \<open>
  \<^verbatim>\<open>FunnelHashTable(capacity, data, delta)\<close>: \<open>data\<close> is \<open>None\<close> or a list of pairs. An
  exception of an insert leaves the constructor, and no table is returned.
\<close>

definition fht_init ::
  "('k pyobj \<Rightarrow> 'k pyobj \<Rightarrow> bool) \<Rightarrow> ('k pyobj \<Rightarrow> int) \<Rightarrow> int
     \<Rightarrow> ('k pyobj \<times> 'v pyobj) list option \<Rightarrow> real \<Rightarrow> (nat \<Rightarrow> int)
     \<Rightarrow> error + ('k, 'v) table" where
  "fht_init E H cap data dl rnd =
     (case fht_new cap dl rnd of
        Inl er \<Rightarrow> Inl er
      | Inr t \<Rightarrow>
          (case data of
             None \<Rightarrow> Inr t
           | Some kvs \<Rightarrow>
               (case insert_each E H kvs t of
                  (Inl er, t') \<Rightarrow> Inl er
                | (Inr u, t') \<Rightarrow> Inr t')))"

section \<open>Sequences of calls and reachable tables\<close>

text \<open>
  A call of one of the mutating methods. \<open>apply_call\<close> is the table as the call leaves
  it, whether it returned or raised.
\<close>

datatype ('k, 'v) call =
    Insert "'k pyobj" "'v pyobj"
  | Delete "'k pyobj"
  | Pop "'k pyobj" "'v pyobj fallback"
  | Clear

fun apply_call ::
  "('k pyobj \<Rightarrow> 'k pyobj \<Rightarrow> bool) \<Rightarrow> ('k pyobj \<Rightarrow> int) \<Rightarrow> ('k, 'v) call \<Rightarrow> ('k, 'v) table
     \<Rightarrow> ('k, 'v) table" where
  "apply_call E H (Insert k v) t = snd (fht_insert E H k v t)"
| "apply_call E H (Delete k) t = snd (fht_delitem E H k t)"
| "apply_call E H (Pop k dflt) t = snd (fht_pop E H k dflt t)"
| "apply_call E H Clear t = snd (fht_clear E H t)"

fun run ::
  "('k pyobj \<Rightarrow> 'k pyobj \<Rightarrow> bool) \<Rightarrow> ('k pyobj \<Rightarrow> int) \<Rightarrow> ('k, 'v) call list \<Rightarrow> ('k, 'v) table
     \<Rightarrow> ('k, 'v) table" where
  "run E H [] t = t"
| "run E H (c # cs) t = run E H cs (apply_call E H c t)"

text \<open>
  A call that is neither an insert, a delete or a pop of the key \<open>k\<close> nor a
  \<^verbatim>\<open>clear()\<close> (which deletes every key). The code tests \<^verbatim>\<open>stored == key\<close>: a delete
  or pop of \<open>k'\<close> passes \<open>k\<close> by when \<^verbatim>\<open>k == k'\<close> is false, and an insert of \<open>k'\<close>
  neither overwrites \<open>k\<close> nor is found in its place when \<^verbatim>\<open>k == k'\<close> and
  \<^verbatim>\<open>k' == k\<close> are both false.
\<close>

fun leaves_key :: "('k pyobj \<Rightarrow> 'k pyobj \<Rightarrow> bool) \<Rightarrow> 'k pyobj \<Rightarrow> ('k, 'v) call \<Rightarrow> bool" where
  "leaves_key E k (Insert k' v) \<longleftrightarrow> \<not> E k k' \<and> \<not> E k' k"
| "leaves_key E k (Delete k') \<longleftrightarrow> \<not> E k k'"
| "leaves_key E k (Pop k' dflt) \<longleftrightarrow> \<not> E k k'"
| "leaves_key E k Clear \<longleftrightarrow> False"

text \<open>The tables a program can hold: built by the constructor, then changed by calls.\<close>

inductive reachable ::
  "('k pyobj \<Rightarrow> 'k pyobj \<Rightarrow> bool) \<Rightarrow> ('k pyobj \<Rightarrow> int) \<Rightarrow> ('k, 'v) table \<Rightarrow> bool" for E H where
  init: "fht_init E H cap data dl rnd = Inr t \<Longrightarrow> reachable E H t"
| call: "reachable E H t \<Longrightarrow> reachable E H (apply_call E H c t)"

section \<open>Definitions used in the proofs\<close>

subsection \<open>The layout invariant\<close>

text \<open>
  What the constructor establishes and no method changes: one salt and one bucket count
  per level, every count positive, every level holding \<open>count * beta\<close> slots, a
  special array of \<open>special_size \<ge> 1\<close> slots, and all slots together within a
  capacity that fits a C \<^verbatim>\<open>int\<close>.
\<close>

definition well_formed :: "('k, 'v) table \<Rightarrow> bool" where
  "well_formed t \<longleftrightarrow>
     0 < beta t \<and>
     length (level_salts t) = length (levels t) \<and>
     length (level_bucket_counts t) = length (levels t) \<and>
     (\<forall>i < length (levels t).
        0 < level_bucket_counts t ! i \<and>
        int (length (levels t ! i)) = level_bucket_counts t ! i * beta t) \<and>
     1 \<le> special_size t \<and>
     int (length (special_array t)) = special_size t \<and>
     (\<Sum>c\<leftarrow>level_bucket_counts t. c * beta t) + special_size t \<le> capacity t \<and>
     capacity t < 2 ^ 31"

definition layout ::
  "('k, 'v) table \<Rightarrow> int \<times> int \<times> int \<times> int \<times> int \<times> int \<times> int \<times> real \<times> int list \<times> int list" where
  "layout t = (capacity t, max_inserts t, alpha t, beta t, special_size t, primary_size t,
     special_salt t, delta t, level_salts t, level_bucket_counts t)"

definition levels_ok :: "int \<Rightarrow> int list \<times> ('k, 'v) entry list list \<times> int list \<Rightarrow> bool" where
  "levels_ok b acc \<longleftrightarrow>
     (case acc of (counts, lvls, salts) \<Rightarrow>
        length counts = length lvls \<and> length salts = length lvls \<and>
        (\<forall>i < length lvls. 0 < counts ! i \<and> int (length (lvls ! i)) = counts ! i * b) \<and>
        (\<forall>lv \<in> set lvls. \<forall>e \<in> set lv. \<not> occupied e))"

subsection \<open>The probe sequence of a key\<close>

text \<open>
  The indices the loops compute for a key: in level \<open>i\<close> the slots
  \<^verbatim>\<open>range(start, end)\<close> of its bucket, in the special array the slots
  \<^verbatim>\<open>(hash + j) % size\<close> for \<^verbatim>\<open>j in range(probe_limit)\<close>; and all of them in the
  order of the walk.
\<close>

definition bucket_slots :: "('k pyobj \<Rightarrow> int) \<Rightarrow> ('k, 'v) table \<Rightarrow> 'k pyobj \<Rightarrow> nat \<Rightarrow> int list" where
  "bucket_slots H t k i =
     (let bucket_index = fht_hash H k (level_salts t ! i) mod (level_bucket_counts t ! i);
          start = bucket_index * beta t
      in py_range start (start + beta t))"

definition special_slots :: "('k pyobj \<Rightarrow> int) \<Rightarrow> ('k, 'v) table \<Rightarrow> 'k pyobj \<Rightarrow> int list" where
  "special_slots H t k =
     map (\<lambda>j. to_cint (fht_hash_special H t k + j) mod int (length (special_array t)))
       (py_range 0 (probe_limit (capacity t)))"

definition level_probes ::
  "('k pyobj \<Rightarrow> int) \<Rightarrow> ('k, 'v) table \<Rightarrow> 'k pyobj \<Rightarrow> nat list \<Rightarrow> slot_ref list" where
  "level_probes H t k is = concat (map (\<lambda>i. map (LevelSlot i) (bucket_slots H t k i)) is)"

definition probes :: "('k pyobj \<Rightarrow> int) \<Rightarrow> ('k, 'v) table \<Rightarrow> 'k pyobj \<Rightarrow> slot_ref list" where
  "probes H t k =
     level_probes H t k [0..<length (levels t)] @ map SpecialSlot (special_slots H t k)"

fun entry_at :: "('k, 'v) table \<Rightarrow> slot_ref \<Rightarrow> ('k, 'v) entry" where
  "entry_at t (LevelSlot i idx) = levels t ! i ! nat idx"
| "entry_at t (SpecialSlot idx) = special_array t ! nat idx"

fun valid_slot :: "('k, 'v) table \<Rightarrow> slot_ref \<Rightarrow> bool" where
  "valid_slot t (LevelSlot i idx) \<longleftrightarrow>
     i < length (levels t) \<and> 0 \<le> idx \<and> idx < int (length (levels t ! i))"
| "valid_slot t (SpecialSlot idx) \<longleftrightarrow> 0 \<le> idx \<and> idx < int (length (special_array t))"

definition first_slot ::
  "(('k, 'v) entry \<Rightarrow> bool) \<Rightarrow> ('k, 'v) table \<Rightarrow> slot_ref list
     \<Rightarrow> (slot_ref \<times> ('k, 'v) entry) option" where
  "first_slot P t rs = map_option (\<lambda>r. (r, entry_at t r)) (find (\<lambda>r. P (entry_at t r)) rs)"

text \<open>The tests of \<^verbatim>\<open>insert\<close> and of \<^verbatim>\<open>get\<close> and \<^verbatim>\<open>__delitem__\<close>.\<close>

definition insert_test :: "('k pyobj \<Rightarrow> 'k pyobj \<Rightarrow> bool) \<Rightarrow> 'k pyobj \<Rightarrow> ('k, 'v) entry \<Rightarrow> bool" where
  "insert_test E k e \<longleftrightarrow> \<not> occupied e \<or> E (key e) k"

definition lookup_test :: "('k pyobj \<Rightarrow> 'k pyobj \<Rightarrow> bool) \<Rightarrow> 'k pyobj \<Rightarrow> ('k, 'v) entry \<Rightarrow> bool" where
  "lookup_test E k e \<longleftrightarrow> occupied e \<and> E (key e) k"

text \<open>
  The key \<open>k\<close> is stored with the value \<open>v\<close>: the first slot of its probe sequence that
  passes the test of \<^verbatim>\<open>get\<close> holds \<open>k\<close> itself, with \<open>v\<close>.
\<close>

definition stored ::
  "('k pyobj \<Rightarrow> 'k pyobj \<Rightarrow> bool) \<Rightarrow> ('k pyobj \<Rightarrow> int) \<Rightarrow> ('k, 'v) table \<Rightarrow> 'k pyobj \<Rightarrow> 'v pyobj
     \<Rightarrow> bool" where
  "stored E H t k v \<longleftrightarrow>
     (\<exists>r. find (\<lambda>r. lookup_test E k (entry_at t r)) (probes H t k) = Some r \<and>
          key (entry_at t r) = k \<and> val (entry_at t r) = v)"

text \<open>A table with one slot overwritten, and with the counters moved by \<open>d\<close>.\<close>

fun with_entry :: "('k, 'v) table \<Rightarrow> slot_ref \<Rightarrow> ('k, 'v) entry \<Rightarrow> ('k, 'v) table" where
  "with_entry t (LevelSlot i idx) e =
     t\<lparr>levels := (levels t)[i := (levels t ! i)[nat idx := e]]\<rparr>"
| "with_entry t (SpecialSlot idx) e = t\<lparr>special_array := (special_array t)[nat idx := e]\<rparr>"

fun counted :: "int \<Rightarrow> slot_ref \<Rightarrow> ('k, 'v) table \<Rightarrow> ('k, 'v) table" where
  "counted d (LevelSlot i idx) t = t\<lparr>num_inserts := num_inserts t + d\<rparr>"
| "counted d (SpecialSlot idx) t =
     t\<lparr>special_occupancy := special_occupancy t + d, num_inserts := num_inserts t + d\<rparr>"

subsection \<open>Slots and pairs\<close>

definition all_entries :: "('k, 'v) table \<Rightarrow> ('k, 'v) entry list" where
  "all_entries t = concat (levels t) @ special_array t"

definition pair_of :: "('k, 'v) entry \<Rightarrow> 'k pyobj \<times> 'v pyobj" where
  "pair_of e = (key e, val e)"

subsection \<open>Occupied slots and probe sequences\<close>

text \<open>Every occupied slot lies on the probe sequence of the key it holds.\<close>

definition on_path :: "('k pyobj \<Rightarrow> int) \<Rightarrow> ('k, 'v) table \<Rightarrow> bool" where
  "on_path H t \<longleftrightarrow>
     (\<forall>r. valid_slot t r \<and> occupied (entry_at t r) \<longrightarrow> r \<in> set (probes H t (key (entry_at t r))))"

subsection \<open>A small table\<close>

text \<open>
  \<^verbatim>\<open>FunnelHashTable(3, delta=0.5)\<close> has one level of one bucket of two slots, a special
  array of one slot and \<^verbatim>\<open>max_inserts = 2\<close>. \<open>small_table rnd lv n\<close> is that table with
  the slots \<open>lv\<close> in its level and \<open>n\<close> for \<^verbatim>\<open>num_inserts\<close>. The examples use integer keys
  and values, \<open>hash0\<close> for \<^verbatim>\<open>hash\<close> and \<open>salt0\<close> for the salts drawn.
\<close>

definition small_table :: "(nat \<Rightarrow> int) \<Rightarrow> ('k, 'v) entry list \<Rightarrow> int \<Rightarrow> ('k, 'v) table" where
  "small_table rnd lv n =
     \<lparr>capacity = 3, num_inserts = n, special_occupancy = 0, max_inserts = 2, alpha = 14,
      beta = 2, special_size = 1, primary_size = 2, special_salt = rnd 1, delta = 1 / 2,
      level_salts = [rnd 0], level_bucket_counts = [1],
      levels = [lv], special_array = [Entry0]\<rparr>"

definition hash0 :: "int pyobj \<Rightarrow> int" where
  "hash0 k = (case k of PyNone \<Rightarrow> 0 | Py n \<Rightarrow> n)"

definition salt0 :: "nat \<Rightarrow> int" where
  "salt0 n = 1306425610 + int n"

abbreviation demo :: "(int, int) entry list \<Rightarrow> int \<Rightarrow> (int, int) table" where
  "demo lv n \<equiv> small_table salt0 lv n"

text \<open>
  Floats as keys: a number or NaN. \<^verbatim>\<open>==\<close> on floats is equality of the numbers, and
  NaN is equal to nothing, itself included. The examples use the floats \<^verbatim>\<open>float('nan')\<close>
  and \<^verbatim>\<open>2.0\<close>: the hash of a float with an integer value is that integer, and the hash
  of NaN is 0 (before Python 3.10; since then it derives from the address of the object).
  The small table has one bucket and one special slot, so that it places a key in the
  same slots whatever its hash is. \<open>nan_demo\<close> is the small table with float keys.
\<close>

datatype pyfloat = FloatVal real | NaN

fun float_eq :: "pyfloat pyobj \<Rightarrow> pyfloat pyobj \<Rightarrow> bool" where
  "float_eq (Py (FloatVal x)) (Py (FloatVal y)) \<longleftrightarrow> x = y"
| "float_eq PyNone PyNone \<longleftrightarrow> True"
| "float_eq a b \<longleftrightarrow> False"

definition float_hash :: "pyfloat pyobj \<Rightarrow> int" where
  "float_hash k = (case k of Py (FloatVal x) \<Rightarrow> \<lfloor>x\<rfloor> | Py NaN \<Rightarrow> 0 | PyNone \<Rightarrow> 0)"

abbreviation nan_demo :: "(pyfloat, int) entry list \<Rightarrow> int \<Rightarrow> (pyfloat, int) table" where
  "nan_demo lv n \<equiv> small_table salt0 lv n"

subsection \<open>The table of the README\<close>

text \<open>
  \<^verbatim>\<open>FunnelHashTable(capacity=30)\<close>, with \<^verbatim>\<open>delta = 0.1\<close>, as
  \<^verbatim>\<open>print_internal_state()\<close> shows it in the README: four levels of one bucket of seven
  slots and a special array of two slots. \<open>readme_table rnd level1 n\<close> has the slots
  \<open>level1\<close> in its first level and \<open>n\<close> for \<^verbatim>\<open>num_inserts\<close>.
\<close>

definition readme_table :: "(nat \<Rightarrow> int) \<Rightarrow> ('k, 'v) entry list \<Rightarrow> int \<Rightarrow> ('k, 'v) table" where
  "readme_table rnd level1 n =
     \<lparr>capacity = 30, num_inserts = n, special_occupancy = 0, max_inserts = 27, alpha = 24,
      beta = 7, special_size = 2, primary_size = 28, special_salt = rnd 4, delta = 1 / 10,
      level_salts = [rnd 0, rnd 1, rnd 2, rnd 3], level_bucket_counts = [1, 1, 1, 1],
      levels = [level1, replicate 7 Entry0, replicate 7 Entry0, replicate 7 Entry0],
      special_array = [Entry0, Entry0]\<rparr>"

abbreviation readme_filled :: "(nat \<Rightarrow> int) \<Rightarrow> (string, int) table" where
  "readme_filled rnd \<equiv>
     readme_table rnd
       [Entry (Py ''foo'') (Py 1) True, Entry (Py ''bar'') (Py 2) True,
        Entry0, Entry0, Entry0, Entry0, Entry0] 2"

section \<open>Probing a well-formed table\<close>

text \<open>
  On a well-formed table the walk raises nothing and stops at the first slot of the probe
  sequence whose entry passes the test.
\<close>

lemma first_slot_Nil: "first_slot P t [] = None"
  by (simp add: first_slot_def)

lemma first_slot_Cons:
  "first_slot P t (r # rs) = (if P (entry_at t r) then Some (r, entry_at t r) else first_slot P t rs)"
  by (simp add: first_slot_def)

lemma first_slot_append:
  "first_slot P t (rs @ rs') =
     (case first_slot P t rs of None \<Rightarrow> first_slot P t rs' | Some found \<Rightarrow> Some found)"
  by (induction rs) (simp_all add: first_slot_Nil first_slot_Cons)

lemma getitem_nat: "0 \<le> i \<Longrightarrow> i < int (length xs) \<Longrightarrow> getitem xs i = Inr (xs ! nat i)"
  by (simp add: getitem_def)

lemma setitem_nat: "0 \<le> i \<Longrightarrow> i < int (length xs) \<Longrightarrow> setitem xs i x = Inr (xs[nat i := x])"
  by (simp add: setitem_def)

lemma scan_bucket_first:
  assumes "i < length lvls" and "\<forall>idx \<in> set idxs. 0 \<le> idx \<and> idx < int (length (lvls ! i))"
  shows "scan_bucket P lvls i idxs =
           Inr (map_option (\<lambda>idx. (idx, lvls ! i ! nat idx)) (find (\<lambda>idx. P (lvls ! i ! nat idx)) idxs))"
  using assms by (induction idxs) (simp_all add: getitem_nat)

lemma set_py_range: "set (py_range a b) = {a..<b}"
proof -
  have "x \<in> (\<lambda>d. a + int d) ` {0..<nat (b - a)} \<longleftrightarrow> a \<le> x \<and> x < b" for x
  proof
    assume "x \<in> (\<lambda>d. a + int d) ` {0..<nat (b - a)}"
    then show "a \<le> x \<and> x < b" by auto
  next
    assume "a \<le> x \<and> x < b"
    then have "x = a + int (nat (x - a))" and "nat (x - a) \<in> {0..<nat (b - a)}" by auto
    then show "x \<in> (\<lambda>d. a + int d) ` {0..<nat (b - a)}" by blast
  qed
  then show ?thesis by (auto simp: py_range_def)
qed

lemma fht_hash_range: "0 \<le> fht_hash H k salt \<and> fht_hash H k salt < 2 ^ 31"
proof -
  have "0 \<le> x AND 0x7FFFFFFF \<and> x AND 0x7FFFFFFF \<le> 0x7FFFFFFF" for x :: int
    by simp
  then show ?thesis
    by (simp add: fht_hash_def Let_def)
qed

lemma bucket_slots_valid:
  assumes "well_formed t" and "i < length (levels t)" and "idx \<in> set (bucket_slots H t k i)"
  shows "0 \<le> idx \<and> idx < int (length (levels t ! i))"
proof -
  define c where "c = level_bucket_counts t ! i"
  define bi where "bi = fht_hash H k (level_salts t ! i) mod c"
  from assms(1,2) have c: "0 < c" and len: "int (length (levels t ! i)) = c * beta t"
    and b: "0 \<le> beta t"
    by (simp_all add: well_formed_def c_def)
  from c have bi: "0 \<le> bi" "bi + 1 \<le> c"
    by (simp_all add: bi_def add1_zle_eq)
  from assms(3) have idx: "bi * beta t \<le> idx" "idx < bi * beta t + beta t"
    by (simp_all add: bucket_slots_def Let_def set_py_range bi_def c_def)
  have "0 \<le> bi * beta t" using bi(1) b by simp
  moreover have "(bi + 1) * beta t \<le> c * beta t"
    using bi(2) b by (rule mult_right_mono)
  ultimately show ?thesis
    using idx len by (simp add: algebra_simps)
qed

lemma special_slots_valid:
  assumes "well_formed t" and "idx \<in> set (special_slots H t k)"
  shows "0 \<le> idx \<and> idx < int (length (special_array t))"
proof -
  from assms(1) have "0 < int (length (special_array t))" by (simp add: well_formed_def)
  with assms(2) show ?thesis by (auto simp: special_slots_def)
qed

lemma probes_valid:
  assumes "well_formed t" and "r \<in> set (probes H t k)"
  shows "valid_slot t r"
  using assms bucket_slots_valid [OF assms(1)] special_slots_valid [OF assms(1)]
  by (auto simp: probes_def level_probes_def)

lemma find_map_slot: "find Q (map f xs) = map_option f (find (\<lambda>x. Q (f x)) xs)"
  by (induction xs) simp_all

lemma scan_levels_first:
  assumes "well_formed t" and "\<forall>i \<in> set is. i < length (levels t)"
  shows "scan_levels H P t k is = Inr (first_slot P t (level_probes H t k is))"
  using assms(2)
proof (induction "is")
  case Nil
  then show ?case by (simp add: level_probes_def first_slot_Nil)
next
  case (Cons i "is")
  then have i: "i < length (levels t)" by simp
  with assms(1) have salt: "fht_hash_level H t k (int i) = Inr (fht_hash H k (level_salts t ! i))"
    and cnt: "getitem (level_bucket_counts t) (int i) = Inr (level_bucket_counts t ! i)"
    and pos: "level_bucket_counts t ! i \<noteq> 0"
    by (auto simp: well_formed_def fht_hash_level_def getitem_nat)
  have bucket: "scan_bucket P (levels t) i (bucket_slots H t k i) =
      Inr (map_option (\<lambda>idx. (idx, levels t ! i ! nat idx))
            (find (\<lambda>idx. P (levels t ! i ! nat idx)) (bucket_slots H t k i)))"
    using i bucket_slots_valid [OF assms(1) i] by (intro scan_bucket_first) auto
  have here: "first_slot P t (map (LevelSlot i) (bucket_slots H t k i)) =
      map_option (\<lambda>idx. (LevelSlot i idx, levels t ! i ! nat idx))
        (find (\<lambda>idx. P (levels t ! i ! nat idx)) (bucket_slots H t k i))"
    by (simp add: first_slot_def find_map_slot option.map_comp comp_def)
  have split: "level_probes H t k (i # is) =
      map (LevelSlot i) (bucket_slots H t k i) @ level_probes H t k is"
    by (simp add: level_probes_def)
  show ?case
  proof (cases "find (\<lambda>idx. P (levels t ! i ! nat idx)) (bucket_slots H t k i)")
    case None
    with Cons salt cnt pos bucket here show ?thesis
      by (simp add: split first_slot_append Let_def bucket_slots_def [symmetric, unfolded Let_def])
  next
    case (Some idx)
    with salt cnt pos bucket here show ?thesis
      by (simp add: split first_slot_append Let_def bucket_slots_def [symmetric, unfolded Let_def])
  qed
qed

lemma scan_special_first:
  assumes "special_array t \<noteq> []"
  shows "scan_special H P t k (int (length (special_array t))) js =
     Inr (first_slot P t
       (map (\<lambda>j. SpecialSlot (to_cint (fht_hash_special H t k + j) mod int (length (special_array t)))) js))"
  using assms
  by (induction js) (simp_all add: first_slot_Nil first_slot_Cons Let_def getitem_nat)

lemma find_slot_first:
  assumes "well_formed t"
  shows "find_slot H P t k = Inr (first_slot P t (probes H t k))"
proof -
  from assms have sp: "special_array t \<noteq> []" by (auto simp: well_formed_def)
  have lv: "scan_levels H P t k [0..<length (levels t)] =
      Inr (first_slot P t (level_probes H t k [0..<length (levels t)]))"
    using assms by (intro scan_levels_first) simp_all
  show ?thesis
    by (simp add: find_slot_def lv Let_def scan_special_first [OF sp] probes_def first_slot_append
        special_slots_def comp_def split: option.split)
qed

lemma nth_le_sum_list:
  fixes xs :: "int list"
  assumes "\<forall>x \<in> set xs. 0 \<le> x" and "i < length xs"
  shows "xs ! i \<le> sum_list xs"
  using assms
proof (induction xs arbitrary: i)
  case Nil
  then show ?case by simp
next
  case (Cons x xs)
  then have "0 \<le> sum_list xs" by (simp add: sum_list_nonneg)
  with Cons show ?case by (cases i) (auto simp: add_increasing)
qed

lemma level_within_capacity:
  assumes "well_formed t" and "i < length (levels t)"
  shows "int (length (levels t ! i)) \<le> capacity t - special_size t"
proof -
  let ?xs = "map (\<lambda>c. c * beta t) (level_bucket_counts t)"
  from assms(1) have len: "length (level_bucket_counts t) = length (levels t)"
    and pos: "\<forall>j < length (levels t). 0 < level_bucket_counts t ! j"
    and b: "0 < beta t"
    and sum: "sum_list ?xs + special_size t \<le> capacity t"
    and here: "int (length (levels t ! i)) = level_bucket_counts t ! i * beta t"
    using assms(2) by (simp_all add: well_formed_def)
  have "\<forall>x \<in> set ?xs. 0 \<le> x"
    using pos b len by (auto simp: in_set_conv_nth intro!: mult_nonneg_nonneg less_imp_le)
  moreover have "i < length ?xs" using assms(2) len by simp
  ultimately have "?xs ! i \<le> sum_list ?xs" by (rule nth_le_sum_list)
  with sum here assms(2) len show ?thesis by simp
qed

section \<open>Writing a slot\<close>

lemma length_nth_update_nested [simp]:
  "length (xss[i := (xss ! i)[j := e]] ! i') = length (xss ! i')"
proof (cases "i' = i")
  case True
  then show ?thesis
    by (cases "i < length xss") (simp_all add: list_update_beyond not_less)
next
  case False
  then show ?thesis by simp
qed

lemma store_entry_valid: "valid_slot t r \<Longrightarrow> store_entry t r e = Inr (with_entry t r e)"
  by (cases r) (simp_all add: getitem_nat setitem_nat)

lemma probes_with_entry [simp]: "probes H (with_entry t r e) k = probes H t k"
  by (cases r) (simp_all add: probes_def level_probes_def bucket_slots_def special_slots_def
      fht_hash_special_def)

lemma probes_counted [simp]: "probes H (counted d r t) k = probes H t k"
  by (cases r) (simp_all add: probes_def level_probes_def bucket_slots_def special_slots_def
      fht_hash_special_def)

lemma valid_slot_with_entry [simp]: "valid_slot (with_entry t r e) r' = valid_slot t r'"
  by (cases r; cases r') simp_all

lemma valid_slot_counted [simp]: "valid_slot (counted d r t) r' = valid_slot t r'"
  by (cases r; cases r') simp_all

lemma wf_with_entry [simp]: "well_formed (with_entry t r e) = well_formed t"
  by (cases r) (simp_all add: well_formed_def)

lemma wf_counted [simp]: "well_formed (counted d r t) = well_formed t"
  by (cases r) (simp_all add: well_formed_def)

lemma entry_at_counted [simp]: "entry_at (counted d r t) r' = entry_at t r'"
  by (cases r; cases r') simp_all

lemma entry_at_with_entry_same: "valid_slot t r \<Longrightarrow> entry_at (with_entry t r e) r = e"
  by (cases r) (simp_all add: nat_less_iff)

lemma entry_at_with_entry_other:
  "valid_slot t r \<Longrightarrow> valid_slot t r' \<Longrightarrow> r' \<noteq> r \<Longrightarrow> entry_at (with_entry t r e) r' = entry_at t r'"
  by (cases r; cases r') (auto simp: nth_list_update nat_eq_iff)

lemma find_SomeD: "find P xs = Some x \<Longrightarrow> x \<in> set xs \<and> P x"
  by (induction xs) (auto split: if_splits)

lemma find_first_transfer:
  "find P xs = Some r \<Longrightarrow> Q r \<Longrightarrow> (\<And>x. x \<in> set xs \<Longrightarrow> \<not> P x \<Longrightarrow> \<not> Q x) \<Longrightarrow> find Q xs = Some r"
  by (induction xs) (auto split: if_splits)

section \<open>The operations on a well-formed table\<close>

lemma fht_insert_wf:
  assumes "well_formed t"
  shows "fht_insert E H k v t =
     (if max_inserts t \<le> num_inserts t then (Inl HashTableFull, t)
      else case find (\<lambda>r. insert_test E k (entry_at t r)) (probes H t k) of
             None \<Rightarrow> (Inl SpecialArrayFull, t)
           | Some r \<Rightarrow> (Inr (), counted 1 r (with_entry t r (Entry k v True))))"
proof (cases "find (\<lambda>r. insert_test E k (entry_at t r)) (probes H t k)")
  case None
  then show ?thesis
    by (simp add: fht_insert_def find_slot_first [OF assms] first_slot_def insert_test_def)
next
  case (Some r)
  then have "valid_slot t r"
    using probes_valid [OF assms] find_SomeD by fastforce
  then have "store_entry t r e = Inr (with_entry t r e)" for e
    by (rule store_entry_valid)
  with Some show ?thesis
    by (cases r) (simp_all add: fht_insert_def find_slot_first [OF assms] first_slot_def insert_test_def)
qed

lemma fht_get_wf:
  assumes "well_formed t"
  shows "fht_get E H k dflt t =
     (case find (\<lambda>r. lookup_test E k (entry_at t r)) (probes H t k) of
        None \<Rightarrow> (case dflt of NoFallback \<Rightarrow> Inl KeyError | Fallback d \<Rightarrow> Inr d)
      | Some r \<Rightarrow> Inr (val (entry_at t r)))"
  by (simp add: fht_get_def find_slot_first [OF assms] first_slot_def lookup_test_def
      split: option.split)

lemma fht_delitem_wf:
  assumes "well_formed t"
  shows "fht_delitem E H k t =
     (case find (\<lambda>r. lookup_test E k (entry_at t r)) (probes H t k) of
        None \<Rightarrow> (Inl KeyError, t)
      | Some r \<Rightarrow> (Inr (), counted (- 1) r (with_entry t r Entry0)))"
proof (cases "find (\<lambda>r. lookup_test E k (entry_at t r)) (probes H t k)")
  case None
  then show ?thesis
    by (simp add: fht_delitem_def find_slot_first [OF assms] first_slot_def lookup_test_def)
next
  case (Some r)
  then have "valid_slot t r"
    using probes_valid [OF assms] find_SomeD by fastforce
  then have "store_entry t r e = Inr (with_entry t r e)" for e
    by (rule store_entry_valid)
  with Some show ?thesis
    by (cases r) (simp_all add: fht_delitem_def find_slot_first [OF assms] first_slot_def lookup_test_def)
qed

lemma wf_fht_insert: "well_formed t \<Longrightarrow> well_formed (snd (fht_insert E H k v t))"
  by (simp add: fht_insert_wf split: option.split)

lemma wf_fht_delitem: "well_formed t \<Longrightarrow> well_formed (snd (fht_delitem E H k t))"
  by (simp add: fht_delitem_wf split: option.split)

lemma wf_on_KeyError: "well_formed t \<Longrightarrow> well_formed (snd (on_KeyError dflt t))"
  by (simp add: on_KeyError_def split: fallback.split)

lemma wf_fht_pop: "well_formed t \<Longrightarrow> well_formed (snd (fht_pop E H k dflt t))"
  using wf_fht_delitem [of t E H k]
  by (auto simp: fht_pop_def on_KeyError_def split: sum.split error.split prod.split fallback.split)

lemma wf_delete_each: "well_formed t \<Longrightarrow> well_formed (snd (delete_each E H ks t))"
proof (induction ks arbitrary: t)
  case Nil
  then show ?case by simp
next
  case (Cons k ks)
  from wf_fht_delitem [OF Cons.prems, of E H k] Cons.IH show ?case
    by (auto split: prod.split sum.split)
qed

lemma wf_fht_clear: "well_formed t \<Longrightarrow> well_formed (snd (fht_clear E H t))"
  by (simp add: fht_clear_def wf_delete_each)

lemma wf_apply_call: "well_formed t \<Longrightarrow> well_formed (apply_call E H c t)"
  by (cases c) (simp_all add: wf_fht_insert wf_fht_delitem wf_fht_pop wf_fht_clear)

lemma wf_run: "well_formed t \<Longrightarrow> well_formed (run E H cs t)"
  by (induction cs arbitrary: t) (simp_all add: wf_apply_call)

section \<open>A stored key and calls on other keys\<close>

lemma snd_fht_pop:
  "snd (fht_pop E H k dflt t) = t \<or> snd (fht_pop E H k dflt t) = snd (fht_delitem E H k t)"
  by (auto simp: fht_pop_def on_KeyError_def split: sum.split error.split prod.split fallback.split)

lemma stored_get:
  assumes "well_formed t" and "stored E H t k v"
  shows "fht_get E H k dflt t = Inr v"
  using assms(2) by (auto simp: stored_def fht_get_wf [OF assms(1)])

text \<open>
  A write to a slot that does not hold \<open>k\<close>, of an entry that does not pass the test of
  \<^verbatim>\<open>get\<close> for \<open>k\<close>, leaves \<open>k\<close> stored.
\<close>

lemma stored_write:
  assumes "well_formed t" and "stored E H t k v" and "valid_slot t r'"
    and "\<not> (occupied (entry_at t r') \<and> key (entry_at t r') = k)"
    and "\<not> lookup_test E k e"
  shows "stored E H (counted d r' (with_entry t r' e)) k v"
proof -
  let ?t' = "counted d r' (with_entry t r' e)"
  from assms(2) obtain r where r: "find (\<lambda>r. lookup_test E k (entry_at t r)) (probes H t k) = Some r"
    and kv: "key (entry_at t r) = k" "val (entry_at t r) = v"
    by (auto simp: stored_def)
  from r have valid: "valid_slot t r" and here: "lookup_test E k (entry_at t r)"
    using probes_valid [OF assms(1)] find_SomeD by fastforce+
  from here kv(1) assms(4) have ne: "r \<noteq> r'"
    by (auto simp: lookup_test_def)
  with valid assms(3) have same: "entry_at ?t' r = entry_at t r"
    by (simp add: entry_at_with_entry_other)
  have "find (\<lambda>x. lookup_test E k (entry_at ?t' x)) (probes H t k) = Some r"
  proof (rule find_first_transfer [OF r])
    show "lookup_test E k (entry_at ?t' r)"
      using here same by simp
  next
    fix x
    assume x: "x \<in> set (probes H t k)" and no: "\<not> lookup_test E k (entry_at t x)"
    show "\<not> lookup_test E k (entry_at ?t' x)"
    proof (cases "x = r'")
      case True
      with assms(3,5) show ?thesis by (simp add: entry_at_with_entry_same)
    next
      case False
      with assms(3) probes_valid [OF assms(1) x] no show ?thesis
        by (simp add: entry_at_with_entry_other)
    qed
  qed
  with same kv show ?thesis
    by (auto simp: stored_def)
qed

lemma stored_insert_other:
  assumes "well_formed t" and "stored E H t k v" and "\<not> E k k'" and "\<not> E k' k"
  shows "stored E H (snd (fht_insert E H k' v' t)) k v"
proof (cases "find (\<lambda>r. insert_test E k' (entry_at t r)) (probes H t k')")
  case None
  with assms(2) show ?thesis by (simp add: fht_insert_wf [OF assms(1)])
next
  case (Some r')
  then have "valid_slot t r'" and "insert_test E k' (entry_at t r')"
    using probes_valid [OF assms(1)] find_SomeD by fastforce+
  with assms have "stored E H (counted 1 r' (with_entry t r' (Entry k' v' True))) k v"
    by (intro stored_write) (auto simp: insert_test_def lookup_test_def Entry_def)
  with Some assms(2) show ?thesis by (simp add: fht_insert_wf [OF assms(1)])
qed

lemma stored_delitem_other:
  assumes "well_formed t" and "stored E H t k v" and "\<not> E k k'"
  shows "stored E H (snd (fht_delitem E H k' t)) k v"
proof (cases "find (\<lambda>r. lookup_test E k' (entry_at t r)) (probes H t k')")
  case None
  with assms(2) show ?thesis by (simp add: fht_delitem_wf [OF assms(1)])
next
  case (Some r')
  then have "valid_slot t r'" and "lookup_test E k' (entry_at t r')"
    using probes_valid [OF assms(1)] find_SomeD by fastforce+
  with assms have "stored E H (counted (- 1) r' (with_entry t r' Entry0)) k v"
    by (intro stored_write) (auto simp: lookup_test_def Entry_def Entry0_def)
  with Some show ?thesis by (simp add: fht_delitem_wf [OF assms(1)])
qed

lemma stored_pop_other:
  assumes "well_formed t" and "stored E H t k v" and "\<not> E k k'"
  shows "stored E H (snd (fht_pop E H k' d t)) k v"
  using snd_fht_pop [of E H k' d t] stored_delitem_other [OF assms] assms(2) by auto

lemma stored_apply_call:
  "well_formed t \<Longrightarrow> stored E H t k v \<Longrightarrow> leaves_key E k c \<Longrightarrow> stored E H (apply_call E H c t) k v"
  by (cases c) (simp_all add: stored_insert_other stored_delitem_other stored_pop_other)

lemma stored_run:
  "well_formed t \<Longrightarrow> stored E H t k v \<Longrightarrow> \<forall>c \<in> set cs. leaves_key E k c
     \<Longrightarrow> stored E H (run E H cs t) k v"
  by (induction cs arbitrary: t) (simp_all add: stored_apply_call wf_apply_call)

text \<open>A successful insert stores its key, when the key equals itself.\<close>

lemma stored_after_insert:
  assumes "well_formed t" and "E k k" and "fht_insert E H k v t = (Inr (), t')"
  shows "stored E H t' k v"
proof -
  from assms(1,3) obtain r
    where r: "find (\<lambda>r. insert_test E k (entry_at t r)) (probes H t k) = Some r"
    and t': "t' = counted 1 r (with_entry t r (Entry k v True))"
    by (auto simp: fht_insert_wf split: if_splits option.splits)
  from r have valid: "valid_slot t r" and here: "insert_test E k (entry_at t r)"
    using probes_valid [OF assms(1)] find_SomeD by fastforce+
  have "find (\<lambda>x. lookup_test E k (entry_at t' x)) (probes H t k) = Some r"
  proof (rule find_first_transfer [OF r])
    show "lookup_test E k (entry_at t' r)"
      using valid assms(2) by (simp add: t' entry_at_with_entry_same lookup_test_def Entry_def)
  next
    fix x
    assume x: "x \<in> set (probes H t k)" and no: "\<not> insert_test E k (entry_at t x)"
    with here have "x \<noteq> r" by auto
    with valid probes_valid [OF assms(1) x] have "entry_at t' x = entry_at t x"
      by (simp add: t' entry_at_with_entry_other)
    with no show "\<not> lookup_test E k (entry_at t' x)"
      by (simp add: insert_test_def lookup_test_def)
  qed
  moreover have "key (entry_at t' r) = k" "val (entry_at t' r) = v"
    using valid by (simp_all add: t' entry_at_with_entry_same Entry_def)
  ultimately show ?thesis
    by (auto simp: stored_def t')
qed

section \<open>The constructor\<close>

lemma to_cint_small: "- (2 ^ 31) \<le> x \<Longrightarrow> x < 2 ^ 31 \<Longrightarrow> to_cint x = x"
  unfolding to_cint_def
  by (simp add: sint_sbintrunc' signed_take_bit_int_eq_self)

lemma build_levels_exhausted:
  "remaining \<le> 0 \<Longrightarrow> build_levels a1 b rnd is remaining acc = acc"
  by (cases "is"; cases acc) (simp_all add: Let_def)

lemma levels_ok_snoc:
  assumes "levels_ok b (counts, lvls, salts)" and "0 < a" and "0 \<le> b"
  shows "levels_ok b (counts @ [a], lvls @ [replicate (nat (a * b)) Entry0], salts @ [s])"
  using assms by (auto simp: levels_ok_def nth_append Entry0_def Entry_def)

lemma build_levels_ok:
  "levels_ok b acc \<Longrightarrow> 0 \<le> b \<Longrightarrow> levels_ok b (build_levels a1 b rnd is remaining acc)"
proof (induction a1 b rnd "is" remaining acc rule: build_levels.induct)
  case (1 a1 b rnd remaining acc)
  then show ?case by simp
next
  case (2 a1 b rnd i "is" remaining counts lvls salts)
  show ?case
  proof (cases "remaining \<le> 0")
    case True
    with "2.prems" show ?thesis by (simp add: Let_def)
  next
    case False
    define a where "a = min (max 1 (py_round (a1 * (3 / 4) ^ i))) remaining"
    from False have a: "0 < a" by (simp add: a_def)
    have "levels_ok b (counts @ [a], lvls @ [replicate (nat (a * b)) Entry0],
        salts @ [rnd (length salts)])"
      using "2.prems" a by (intro levels_ok_snoc)
    with "2.IH" [OF refl _ refl] False "2.prems"(2) show ?thesis
      by (simp add: Let_def a_def)
  qed
qed

lemma build_levels_sum:
  "0 \<le> remaining \<Longrightarrow>
     sum_list (fst (build_levels a1 b rnd is remaining (counts, lvls, salts)))
       \<le> sum_list counts + remaining"
proof (induction "is" arbitrary: remaining counts lvls salts)
  case Nil
  then show ?case by simp
next
  case (Cons i "is")
  show ?case
  proof (cases "remaining \<le> 0")
    case True
    with Cons.prems show ?thesis by (simp add: Let_def)
  next
    case False
    define a where "a = min (max 1 (py_round (a1 * (3 / 4) ^ i))) remaining"
    have a: "0 < a" "a \<le> remaining" using False by (simp_all add: a_def)
    then have "0 \<le> remaining - a" by simp
    from Cons.IH [OF this, of "counts @ [a]"] False a show ?thesis
      by (simp add: Let_def a_def [symmetric])
  qed
qed

lemma beta_pos:
  assumes "0 < dl" and "dl < 1"
  shows "1 \<le> \<lceil>2 * log 2 (1 / dl)\<rceil>"
proof -
  define x where "x = 1 / dl"
  from assms have "1 < x" by (simp add: x_def)
  then have "0 < log 2 x" by simp
  then have "0 < log 2 (1 / dl)" by (simp only: x_def)
  then have "0 < 2 * log 2 (1 / dl)" by simp
  then show ?thesis by linarith
qed

lemma special_size_le:
  assumes "1 \<le> cap" and "0 < dl" and "dl < 1"
  shows "max 1 (py_int (3 * dl * of_int cap / 4)) \<le> cap"
proof -
  have "3 * dl * of_int cap / 4 \<le> 1 * real_of_int cap"
    using assms by (simp add: mult_right_mono)
  then have "\<lfloor>3 * dl * of_int cap / 4\<rfloor> \<le> cap"
    by (simp add: floor_le_iff)
  moreover have "0 \<le> 3 * dl * of_int cap / 4" using assms by simp
  ultimately show ?thesis using assms(1) by (simp add: py_int_def)
qed

lemma fht_new_succeeds:
  assumes "1 \<le> cap" and "cap < 2 ^ 31" and "0 < dl" and "dl < 1"
  shows "\<exists>t. fht_new cap dl rnd = Inr t"
proof -
  from beta_pos [OF assms(3,4)] have "\<lceil>2 * log 2 (1 / dl)\<rceil> \<noteq> 0" by linarith
  with assms show ?thesis
    by (simp add: fht_new_def Let_def split: prod.split)
qed

lemma fht_new_built:
  assumes "fht_new cap dl rnd = Inr t"
  shows "\<exists>a1. build_levels a1 (beta t) rnd [0..<nat (alpha t)] (primary_size t div beta t) ([], [], [])
            = (level_bucket_counts t, levels t, level_salts t)"
  using assms
  by (auto simp: fht_new_def Let_def split: if_splits prod.splits)

lemma fht_new_fields:
  assumes "fht_new cap dl rnd = Inr t"
  shows "1 \<le> cap" and "cap < 2 ^ 31" and "0 < dl" and "dl < 1"
    and "capacity t = cap" and "delta t = dl"
    and "num_inserts t = 0" and "special_occupancy t = 0"
    and "max_inserts t = cap - py_int (dl * of_int cap)"
    and "alpha t = \<lceil>4 * log 2 (1 / dl) + 10\<rceil>"
    and "beta t = \<lceil>2 * log 2 (1 / dl)\<rceil>"
    and "special_size t = max 1 (py_int (3 * dl * of_int cap / 4))"
    and "primary_size t = cap - special_size t"
    and "special_array t = replicate (nat (special_size t)) Entry0"
    and "special_salt t = rnd (length (level_salts t))"
  using assms
  by (auto simp: fht_new_def Let_def split: if_splits prod.splits)

lemma fht_new_levels_ok:
  assumes "fht_new cap dl rnd = Inr t"
  shows "levels_ok (beta t) (level_bucket_counts t, levels t, level_salts t)"
proof -
  note f = fht_new_fields [OF assms]
  from beta_pos [OF f(3,4)] f(11) have b: "0 \<le> beta t" by simp
  from fht_new_built [OF assms] obtain a1 where
    eq: "build_levels a1 (beta t) rnd [0..<nat (alpha t)] (primary_size t div beta t) ([], [], [])
       = (level_bucket_counts t, levels t, level_salts t)" ..
  show ?thesis
    unfolding eq [symmetric] using b by (intro build_levels_ok) (simp_all add: levels_ok_def)
qed

lemma fht_new_budget:
  assumes "fht_new cap dl rnd = Inr t"
  shows "(\<Sum>c\<leftarrow>level_bucket_counts t. c * beta t) + special_size t \<le> capacity t"
proof -
  note f = fht_new_fields [OF assms]
  from beta_pos [OF f(3,4)] f(11) have b: "0 < beta t" by simp
  have s: "special_size t \<le> cap"
    using special_size_le [OF f(1,3,4)] by (simp add: f(12))
  then have p: "0 \<le> primary_size t" by (simp add: f(13))
  then have tb: "0 \<le> primary_size t div beta t"
    using b by (simp add: pos_imp_zdiv_nonneg_iff)
  from fht_new_built [OF assms] obtain a1 where
    eq: "build_levels a1 (beta t) rnd [0..<nat (alpha t)] (primary_size t div beta t) ([], [], [])
       = (level_bucket_counts t, levels t, level_salts t)" ..
  have "sum_list (fst (level_bucket_counts t, levels t, level_salts t))
      \<le> sum_list [] + primary_size t div beta t"
    unfolding eq [symmetric] by (rule build_levels_sum [OF tb])
  then have "sum_list (level_bucket_counts t) \<le> primary_size t div beta t" by simp
  then have "sum_list (level_bucket_counts t) * beta t \<le> primary_size t div beta t * beta t"
    using b by (simp add: mult_right_mono)
  also have "\<dots> \<le> primary_size t"
    using b by (simp flip: minus_mod_eq_div_mult)
  finally have "sum_list (level_bucket_counts t) * beta t \<le> primary_size t" .
  moreover have "(\<Sum>c\<leftarrow>level_bucket_counts t. c * beta t) = sum_list (level_bucket_counts t) * beta t"
    by (simp add: sum_list_mult_const)
  ultimately show ?thesis by (simp add: f(13) f(5))
qed

lemma wf_fht_new:
  assumes "fht_new cap dl rnd = Inr t"
  shows "well_formed t"
proof -
  note f = fht_new_fields [OF assms]
  from beta_pos [OF f(3,4)] f(11) have "0 < beta t" by simp
  moreover have "1 \<le> special_size t"
    by (simp add: f(12))
  moreover from this have "int (length (special_array t)) = special_size t"
    by (simp add: f(14))
  moreover have "capacity t < 2 ^ 31"
    using f(2) by (simp add: f(5))
  ultimately show ?thesis
    using fht_new_levels_ok [OF assms] fht_new_budget [OF assms]
    by (simp add: well_formed_def levels_ok_def)
qed

section \<open>Layout and reachable tables\<close>

lemma layout_with_entry [simp]: "layout (with_entry t r e) = layout t"
  by (cases r) (simp_all add: layout_def)

lemma layout_counted [simp]: "layout (counted d r t) = layout t"
  by (cases r) (simp_all add: layout_def)

lemma layout_fht_insert: "well_formed t \<Longrightarrow> layout (snd (fht_insert E H k v t)) = layout t"
  by (simp add: fht_insert_wf split: option.split)

lemma layout_fht_delitem: "well_formed t \<Longrightarrow> layout (snd (fht_delitem E H k t)) = layout t"
  by (simp add: fht_delitem_wf split: option.split)

lemma insert_each_keeps:
  "well_formed t \<Longrightarrow> well_formed (snd (insert_each E H kvs t)) \<and> layout (snd (insert_each E H kvs t)) = layout t"
proof (induction kvs arbitrary: t)
  case Nil
  then show ?case by simp
next
  case (Cons kv kvs)
  obtain k v where kv: "kv = (k, v)" by (cases kv)
  obtain res t1 where ins: "fht_insert E H k v t = (res, t1)" by (cases "fht_insert E H k v t")
  from wf_fht_insert [OF Cons.prems, of E H k v] layout_fht_insert [OF Cons.prems, of E H k v] ins
  have t1: "well_formed t1" "layout t1 = layout t" by simp_all
  show ?case
  proof (cases res)
    case (Inl er)
    with ins t1 show ?thesis by (simp add: kv)
  next
    case (Inr u)
    with ins t1 Cons.IH [OF t1(1)] show ?thesis by (simp add: kv)
  qed
qed

lemma fht_init_cases:
  fixes t :: "('k, 'v) table"
  assumes "fht_init E H cap data dl rnd = Inr t"
  obtains t0 :: "('k, 'v) table"
    where "fht_new cap dl rnd = Inr t0" and "well_formed t" and "layout t = layout t0"
proof -
  from assms obtain t0 :: "('k, 'v) table" where new: "fht_new cap dl rnd = Inr t0"
    by (cases "fht_new cap dl rnd :: error + ('k, 'v) table") (auto simp: fht_init_def)
  then have wf0: "well_formed t0" by (rule wf_fht_new)
  show ?thesis
  proof (cases data)
    case None
    with assms new have "t = t0" by (simp add: fht_init_def)
    with new wf0 that show ?thesis by blast
  next
    case (Some kvs)
    with assms new have "t = snd (insert_each E H kvs t0)"
      by (auto simp: fht_init_def split: prod.splits sum.splits)
    with insert_each_keeps [OF wf0, of E H kvs] new that show ?thesis by blast
  qed
qed

lemma wf_fht_init: "fht_init E H cap data dl rnd = Inr t \<Longrightarrow> well_formed t"
  by (erule fht_init_cases)

lemma reachable_wf: "reachable E H t \<Longrightarrow> well_formed t"
  by (induction rule: reachable.induct) (simp_all add: wf_fht_init wf_apply_call)

lemma reachable_run: "reachable E H t \<Longrightarrow> reachable E H (run E H cs t)"
  by (induction cs arbitrary: t) (simp_all add: reachable.call)

section \<open>Iteration\<close>

lemma fht_items_entries: "fht_items t = map pair_of (filter occupied (all_entries t))"
proof -
  have "pair_of = (\<lambda>e :: ('a, 'b) entry. (key e, val e))"
    by (simp add: fun_eq_iff pair_of_def)
  then show ?thesis
    by (simp add: fht_items_def all_entries_def map_concat filter_concat comp_def)
qed

lemma all_entries_counted [simp]: "all_entries (counted d r t) = all_entries t"
  by (cases r) (simp_all add: all_entries_def)

lemma entry_at_in_entries:
  assumes "valid_slot t r"
  shows "entry_at t r \<in> set (all_entries t)"
proof (cases r)
  case (LevelSlot i idx)
  with assms have "levels t ! i \<in> set (levels t)" and "levels t ! i ! nat idx \<in> set (levels t ! i)"
    by (simp_all add: nat_less_iff)
  then show ?thesis using LevelSlot by (auto simp: all_entries_def)
next
  case (SpecialSlot idx)
  with assms show ?thesis by (simp add: all_entries_def nat_less_iff)
qed

lemma mset_concat_update:
  assumes "i < length xss" and "j < length (xss ! i)"
  shows "mset (concat (xss[i := (xss ! i)[j := e]])) =
           add_mset e (mset (concat xss) - {#xss ! i ! j#})"
proof -
  have in_i: "xss ! i ! j \<in># mset (xss ! i)" using assms(2) by simp
  have "concat (xss[i := (xss ! i)[j := e]]) =
      concat (take i xss) @ (xss ! i)[j := e] @ concat (drop (Suc i) xss)"
    using assms(1) by (simp add: upd_conv_take_nth_drop)
  moreover have "concat xss = concat (take i xss) @ xss ! i @ concat (drop (Suc i) xss)"
    using assms(1) by (metis concat.simps(2) concat_append id_take_nth_drop)
  ultimately show ?thesis
    using in_i assms(2) by (simp add: mset_update)
qed

lemma mset_entries_with_entry:
  assumes "valid_slot t r"
  shows "mset (all_entries (with_entry t r e)) =
           add_mset e (mset (all_entries t) - {#entry_at t r#})"
proof (cases r)
  case (LevelSlot i idx)
  with assms have "i < length (levels t)" and "nat idx < length (levels t ! i)"
    by (simp_all add: nat_less_iff)
  then have "mset (concat ((levels t)[i := (levels t ! i)[nat idx := e]])) =
      add_mset e (mset (concat (levels t)) - {#levels t ! i ! nat idx#})"
    by (rule mset_concat_update)
  moreover have "levels t ! i ! nat idx \<in># mset (concat (levels t))"
    using \<open>i < length (levels t)\<close> \<open>nat idx < length (levels t ! i)\<close>
    by (auto intro!: bexI [of _ "levels t ! i"])
  ultimately show ?thesis using LevelSlot by (simp add: all_entries_def)
next
  case (SpecialSlot idx)
  with assms have "nat idx < length (special_array t)" by (simp add: nat_less_iff)
  then show ?thesis using SpecialSlot by (simp add: all_entries_def mset_update)
qed

lemma mset_items_with_entry:
  assumes "valid_slot t r"
  shows "mset (fht_items (counted d r (with_entry t r e))) =
     (if occupied e then {#pair_of e#} else {#}) +
     (mset (fht_items t) - (if occupied (entry_at t r) then {#pair_of (entry_at t r)#} else {#}))"
proof -
  define old where "old = entry_at t r"
  define M where "M = mset (all_entries t)"
  have old: "old \<in># M"
    using entry_at_in_entries [OF assms] by (simp add: old_def M_def)
  have M': "mset (all_entries (with_entry t r e)) = add_mset e (M - {#old#})"
    by (simp add: mset_entries_with_entry [OF assms] old_def M_def)
  have rest: "image_mset pair_of (filter_mset occupied (M - {#old#})) =
      image_mset pair_of (filter_mset occupied M) - (if occupied old then {#pair_of old#} else {#})"
  proof (cases "occupied old")
    case True
    with old have "{#old#} \<subseteq># filter_mset occupied M" by simp
    then have "image_mset pair_of (filter_mset occupied M - {#old#}) =
        image_mset pair_of (filter_mset occupied M) - image_mset pair_of {#old#}"
      by (rule image_mset_Diff)
    with True show ?thesis by simp
  next
    case False
    then show ?thesis by simp
  qed
  have items: "image_mset pair_of (filter_mset occupied M) = mset (fht_items t)"
    by (simp add: fht_items_entries M_def)
  have "mset (fht_items (counted d r (with_entry t r e))) =
      image_mset pair_of (filter_mset occupied (add_mset e (M - {#old#})))"
    by (simp add: fht_items_entries M')
  also have "\<dots> = (if occupied e then {#pair_of e#} else {#}) +
      image_mset pair_of (filter_mset occupied (M - {#old#}))"
    by simp
  finally have "mset (fht_items (counted d r (with_entry t r e))) =
      (if occupied e then {#pair_of e#} else {#}) +
      (mset (fht_items t) - (if occupied old then {#pair_of old#} else {#}))"
    unfolding rest items .
  then show ?thesis
    unfolding old_def .
qed

lemma fht_new_items:
  assumes "fht_new cap dl rnd = Inr t"
  shows "fht_items t = []"
proof -
  from fht_new_levels_ok [OF assms] have "\<forall>lv \<in> set (levels t). \<forall>e \<in> set lv. \<not> occupied e"
    by (simp add: levels_ok_def)
  then have "filter occupied (concat (levels t)) = []"
    by (auto simp: filter_empty_conv)
  moreover have "filter occupied (special_array t) = []"
    by (simp add: fht_new_fields(14) [OF assms] Entry0_def Entry_def)
  ultimately show ?thesis by (simp add: fht_items_entries all_entries_def)
qed

lemma insert_new_key_items:
  assumes "well_formed t" and "\<forall>a \<in> fst ` set (fht_items t). \<not> E a k"
    and "fht_insert E H k v t = (Inr (), t')"
  shows "mset (fht_items t') = add_mset (k, v) (mset (fht_items t))"
proof -
  from assms(1,3) obtain r where r: "find (\<lambda>r. insert_test E k (entry_at t r)) (probes H t k) = Some r"
    and t': "t' = counted 1 r (with_entry t r (Entry k v True))"
    by (auto simp: fht_insert_wf split: if_splits option.splits)
  from r have valid: "valid_slot t r" and here: "insert_test E k (entry_at t r)"
    using probes_valid [OF assms(1)] find_SomeD by fastforce+
  have "\<not> occupied (entry_at t r)"
  proof
    assume occ: "occupied (entry_at t r)"
    with here have "E (key (entry_at t r)) k" by (simp add: insert_test_def)
    moreover from occ entry_at_in_entries [OF valid]
    have "pair_of (entry_at t r) \<in> set (fht_items t)" by (simp add: fht_items_entries)
    then have "key (entry_at t r) \<in> fst ` set (fht_items t)"
      by (metis fst_conv image_eqI pair_of_def)
    ultimately show False using assms(2) by blast
  qed
  then show ?thesis
    by (simp add: t' mset_items_with_entry [OF valid] Entry_def pair_of_def)
qed

lemma insert_each_items:
  assumes "well_formed t" and "distinct (map fst kvs)"
    and "\<forall>a \<in> fst ` set (fht_items t) \<union> fst ` set kvs. \<forall>b \<in> fst ` set kvs. a \<noteq> b \<longrightarrow> \<not> E a b"
    and "fst ` set kvs \<inter> fst ` set (fht_items t) = {}"
    and "insert_each E H kvs t = (Inr (), t')"
  shows "mset (fht_items t') = mset (fht_items t) + mset kvs"
  using assms
proof (induction kvs arbitrary: t)
  case Nil
  then show ?case by simp
next
  case (Cons kv kvs)
  obtain k v where kv: "kv = (k, v)" by (cases kv)
  from Cons.prems(5) obtain t1 where ins: "fht_insert E H k v t = (Inr (), t1)"
    and rest: "insert_each E H kvs t1 = (Inr (), t')"
    by (auto simp: kv split: prod.splits sum.splits)
  have new: "\<forall>a \<in> fst ` set (fht_items t). \<not> E a k"
  proof
    fix a
    assume a: "a \<in> fst ` set (fht_items t)"
    with Cons.prems(4) have "a \<noteq> k" by (auto simp: kv)
    with a Cons.prems(3) show "\<not> E a k" by (simp add: kv)
  qed
  have items1: "mset (fht_items t1) = add_mset (k, v) (mset (fht_items t))"
    using Cons.prems(1) new ins by (rule insert_new_key_items)
  then have set1: "set (fht_items t1) = insert (k, v) (set (fht_items t))"
    by (metis set_mset_add_mset_insert set_mset_mset)
  with Cons.prems(2,4) have disj: "fst ` set kvs \<inter> fst ` set (fht_items t1) = {}"
    by (auto simp: kv)
  from Cons.prems(3) set1
  have apart: "\<forall>a \<in> fst ` set (fht_items t1) \<union> fst ` set kvs. \<forall>b \<in> fst ` set kvs. a \<noteq> b \<longrightarrow> \<not> E a b"
    by (simp add: kv)
  have "well_formed t1" using wf_fht_insert [OF Cons.prems(1), of E H k v] ins by simp
  from Cons.IH [OF this _ apart disj rest] Cons.prems(2) items1 show ?case
    by (simp add: kv)
qed

lemma insert_each_stored:
  "well_formed t \<Longrightarrow> stored E H t k v \<Longrightarrow> \<forall>k' \<in> fst ` set kvs. \<not> E k k' \<and> \<not> E k' k
     \<Longrightarrow> stored E H (snd (insert_each E H kvs t)) k v"
proof (induction kvs arbitrary: t)
  case Nil
  then show ?case by simp
next
  case (Cons kv kvs)
  obtain k' v' where kv: "kv = (k', v')" by (cases kv)
  with Cons.prems(3) have ne: "\<not> E k k'" "\<not> E k' k" by simp_all
  obtain res t1 where ins: "fht_insert E H k' v' t = (res, t1)" by (cases "fht_insert E H k' v' t")
  from stored_insert_other [OF Cons.prems(1,2) ne, of v'] ins
  have st1: "stored E H t1 k v" by simp
  have wf1: "well_formed t1" using wf_fht_insert [OF Cons.prems(1), of E H k' v'] ins by simp
  show ?case
  proof (cases res)
    case (Inl er)
    with ins st1 show ?thesis by (simp add: kv)
  next
    case (Inr u)
    with ins Cons.IH [OF wf1 st1] Cons.prems(3) show ?thesis by (simp add: kv)
  qed
qed

lemma insert_each_get:
  assumes "well_formed t" and "distinct (map fst kvs)"
    and "\<forall>a \<in> fst ` set kvs. \<forall>b \<in> fst ` set kvs. a \<noteq> b \<longrightarrow> \<not> E a b"
    and "insert_each E H kvs t = (Inr (), t')"
    and "(k, v) \<in> set kvs" and "E k k"
  shows "fht_get E H k dflt t' = Inr v"
  using assms
proof (induction kvs arbitrary: t)
  case Nil
  then show ?case by simp
next
  case (Cons kv kvs)
  obtain k1 v1 where kv: "kv = (k1, v1)" by (cases kv)
  from Cons.prems(4) obtain t1 where ins: "fht_insert E H k1 v1 t = (Inr (), t1)"
    and rest: "insert_each E H kvs t1 = (Inr (), t')"
    by (auto simp: kv split: prod.splits sum.splits)
  have wf1: "well_formed t1" using wf_fht_insert [OF Cons.prems(1), of E H k1 v1] ins by simp
  show ?case
  proof (cases "(k, v) \<in> set kvs")
    case True
    from Cons.IH [OF wf1 _ _ rest True Cons.prems(6)] Cons.prems(2,3) show ?thesis by simp
  next
    case False
    with Cons.prems(5) have same: "k1 = k" "v1 = v" by (simp_all add: kv)
    with Cons.prems(2) have "k \<notin> fst ` set kvs" by (simp add: kv)
    with Cons.prems(3) have others: "\<forall>k' \<in> fst ` set kvs. \<not> E k k' \<and> \<not> E k' k"
      by (auto simp: kv same)
    have "stored E H t1 k v"
      using Cons.prems(1,6) ins unfolding same by (rule stored_after_insert)
    from insert_each_stored [OF wf1 this others] rest
    have st: "stored E H t' k v" by simp
    have "well_formed t'" using insert_each_keeps [OF wf1, of E H kvs] rest by simp
    then show ?thesis using st by (rule stored_get)
  qed
qed

text \<open>A key that no stored key equals is not found.\<close>

lemma get_absent:
  assumes "well_formed t" and "\<forall>a \<in> fst ` set (fht_items t). \<not> E a k"
  shows "fht_get E H k NoFallback t = Inl KeyError"
proof -
  have "\<not> lookup_test E k (entry_at t r)" if "r \<in> set (probes H t k)" for r
  proof
    assume l: "lookup_test E k (entry_at t r)"
    from probes_valid [OF assms(1) that] have "entry_at t r \<in> set (all_entries t)"
      by (rule entry_at_in_entries)
    with l have "key (entry_at t r) \<in> fst ` set (fht_items t)"
      by (force simp: fht_items_entries lookup_test_def pair_of_def)
    with assms(2) l show False by (auto simp: lookup_test_def)
  qed
  then have "find (\<lambda>r. lookup_test E k (entry_at t r)) (probes H t k) = None"
    by (simp add: find_None_iff)
  then show ?thesis by (simp add: fht_get_wf [OF assms(1)])
qed

section \<open>The small table, evaluated\<close>

lemma exp_1_ge: "(5 / 2 :: real) \<le> exp 1"
  using exp_lower_Taylor_quadratic [of "1 :: real"] by simp

lemma ln_le_if_le_exp: "0 < x \<Longrightarrow> x \<le> exp y \<Longrightarrow> ln x \<le> (y :: real)"
  by (metis exp_le_cancel_iff exp_ln)

lemma ln_4_le: "ln (4 :: real) \<le> 3 / 2"
proof -
  have "(65 / 32 :: real) \<le> exp (3 / 4)"
    using exp_lower_Taylor_quadratic [of "3 / 4 :: real"] by (simp add: power2_eq_square)
  then have "(65 / 32 :: real) * (65 / 32) \<le> exp (3 / 4) * exp (3 / 4)"
    by (intro mult_mono) simp_all
  also have "exp (3 / 4) * exp (3 / 4) = exp (3 / 2 :: real)"
    by (simp flip: exp_add)
  finally have "(4 :: real) \<le> exp (3 / 2)" by simp
  then show ?thesis
    by (rule ln_le_if_le_exp [rotated]) simp
qed

lemma probe_limit_3: "probe_limit 3 = 1"
proof -
  have "ln (ln (4 :: real) + 1) \<le> 1"
  proof -
    have "ln (4 :: real) + 1 \<le> exp 1" using ln_4_le exp_1_ge by linarith
    moreover have "0 < ln (4 :: real) + 1" by (simp add: add_pos_nonneg)
    ultimately show ?thesis by (intro ln_le_if_le_exp)
  qed
  then have "\<lceil>ln (ln (4 :: real) + 1)\<rceil> \<le> 1" by (simp add: ceiling_le_iff)
  then show ?thesis
    by (simp add: probe_limit_def to_cint_small)
qed

lemma round_a1_small: "py_round (1 / (4 * (1 - (3 / 4) ^ 14))) = 0"
  by code_simp

lemma fht_new_small: "fht_new 3 (1 / 2) rnd = Inr (small_table rnd [Entry0, Entry0] 0)"
proof -
  have upt: "[0..<14] = 0 # [1..<14]"
    by (simp add: upt_conv_Cons)
  have "build_levels (1 / (4 * (1 - (3 / 4) ^ 14))) 2 rnd [0..<14] 1 ([], [], [])
          = ([1], [[Entry0, Entry0 :: ('a, 'b) entry]], [rnd 0])"
    unfolding upt
    by (simp add: round_a1_small build_levels_exhausted Let_def numeral_2_eq_2 del: upt.simps)
  then show ?thesis
    by (simp add: fht_new_def Let_def py_int_def small_table_def)
qed

lemma fht_init_small: "fht_init E H 3 None (1 / 2) rnd = Inr (small_table rnd [Entry0, Entry0] 0)"
  by (simp add: fht_init_def fht_new_small)

lemma wf_small_table: "well_formed (small_table rnd [e0, e1] n)"
  by (simp add: well_formed_def small_table_def)

lemma py_range_0_2: "py_range 0 2 = [0, 1]"
  by (simp add: py_range_def upt_rec)

lemma scan_small:
  "scan_levels H P (small_table rnd [e0, e1] n) k [0] =
     (if P e0 then Inr (Some (LevelSlot 0 0, e0))
      else if P e1 then Inr (Some (LevelSlot 0 1, e1)) else Inr None)"
  by (simp add: small_table_def fht_hash_level_def getitem_def py_range_0_2)

lemma special_small:
  "scan_special H P (small_table rnd lv n) k 1 (py_range 0 (probe_limit 3)) =
     (if P Entry0 then Inr (Some (SpecialSlot 0, Entry0)) else Inr None)"
  by (simp add: probe_limit_3 py_range_def small_table_def getitem_def)

lemma find_small:
  "find_slot H P (small_table rnd [e0, e1] n) k =
     (if P e0 then Inr (Some (LevelSlot 0 0, e0))
      else if P e1 then Inr (Some (LevelSlot 0 1, e1))
      else if P Entry0 then Inr (Some (SpecialSlot 0, Entry0)) else Inr None)"
proof -
  have fields: "levels (small_table rnd [e0, e1] n) = [[e0, e1]]"
    "special_array (small_table rnd [e0, e1] n) = [Entry0]"
    "capacity (small_table rnd [e0, e1] n) = 3"
    by (simp_all add: small_table_def)
  show ?thesis
    by (simp add: find_slot_def fields scan_small special_small
        del: scan_levels.simps scan_special.simps)
qed

lemma insert_small_first:
  assumes "n < 2" and "\<not> occupied e0 \<or> E (key e0) k"
  shows "fht_insert E H k v (small_table rnd [e0, e1] n) =
           (Inr (), small_table rnd [Entry k v True, e1] (n + 1))"
  using assms by (simp add: fht_insert_def find_small) (simp add: small_table_def getitem_def setitem_def)

lemma insert_small_second:
  assumes "n < 2" and "occupied e0" and "\<not> E (key e0) k" and "\<not> occupied e1 \<or> E (key e1) k"
  shows "fht_insert E H k v (small_table rnd [e0, e1] n) =
           (Inr (), small_table rnd [e0, Entry k v True] (n + 1))"
  using assms by (simp add: fht_insert_def find_small) (simp add: small_table_def getitem_def setitem_def)

lemma delitem_small_first:
  assumes "occupied e0" and "E (key e0) k"
  shows "fht_delitem E H k (small_table rnd [e0, e1] n) =
           (Inr (), small_table rnd [Entry0, e1] (n - 1))"
  using assms by (simp add: fht_delitem_def find_small) (simp add: small_table_def getitem_def setitem_def)

lemma delitem_small_second:
  assumes "\<not> (occupied e0 \<and> E (key e0) k)" and "occupied e1" and "E (key e1) k"
  shows "fht_delitem E H k (small_table rnd [e0, e1] n) =
           (Inr (), small_table rnd [e0, Entry0] (n - 1))"
proof -
  from assms(1) have no: "(occupied e0 \<and> E (key e0) k) = False" by simp
  show ?thesis
    using assms(2,3)
    by (simp add: fht_delitem_def find_small no) (simp add: small_table_def getitem_def setitem_def)
qed

lemma get_small_first:
  assumes "occupied e0" and "E (key e0) k"
  shows "fht_get E H k dflt (small_table rnd [e0, e1] n) = Inr (val e0)"
  using assms by (simp add: fht_get_def find_small)

lemma get_small_second:
  assumes "\<not> (occupied e0 \<and> E (key e0) k)" and "occupied e1" and "E (key e1) k"
  shows "fht_get E H k dflt (small_table rnd [e0, e1] n) = Inr (val e1)"
proof -
  from assms(1) have no: "(occupied e0 \<and> E (key e0) k) = False" by simp
  show ?thesis
    using assms(2,3) by (simp add: fht_get_def find_small no)
qed

lemma get_small_none:
  assumes "\<not> (occupied e0 \<and> E (key e0) k)" and "\<not> (occupied e1 \<and> E (key e1) k)"
  shows "fht_get E H k NoFallback (small_table rnd [e0, e1] n) = Inl KeyError"
proof -
  from assms have no: "(occupied e0 \<and> E (key e0) k) = False" "(occupied e1 \<and> E (key e1) k) = False"
    by simp_all
  show ?thesis
    by (simp add: fht_get_def find_small no Entry0_def Entry_def)
qed

lemma items_small:
  "fht_items (small_table rnd lv n) = map (\<lambda>e. (key e, val e)) (filter occupied lv)"
  by (simp add: fht_items_def small_table_def Entry0_def Entry_def)

lemma Entry_fields [simp]:
  "key (Entry k v occ) = k" "val (Entry k v occ) = v" "occupied (Entry k v occ) = occ"
  by (simp_all add: Entry_def)

lemma Entry0_fields [simp]:
  "key Entry0 = PyNone" "val Entry0 = PyNone" "occupied Entry0 = False"
  by (simp_all add: Entry0_def)

lemma num_inserts_counted: "num_inserts (counted d r (with_entry t r e)) = num_inserts t + d"
  by (cases r) simp_all

lemma reachable_small:
  "reachable E H (run E H cs (small_table rnd [Entry0, Entry0] 0))"
  by (intro reachable_run reachable.init [of E H 3 None "1 / 2" rnd]) (rule fht_init_small)

lemma len_small: "fht_len (small_table rnd lv n) = n"
  by (simp add: fht_len_def small_table_def)

section \<open>Occupied slots stay on the probe sequence of their key\<close>

lemma on_path_store:
  assumes "on_path H t" and "valid_slot t r"
    and "occupied e \<longrightarrow> r \<in> set (probes H t (key e))"
  shows "on_path H (counted d r (with_entry t r e))"
  unfolding on_path_def
proof (intro allI impI)
  fix r'
  assume a: "valid_slot (counted d r (with_entry t r e)) r'
    \<and> occupied (entry_at (counted d r (with_entry t r e)) r')"
  then have valid': "valid_slot t r'" by simp
  show "r' \<in> set (probes H (counted d r (with_entry t r e))
      (key (entry_at (counted d r (with_entry t r e)) r')))"
  proof (cases "r' = r")
    case True
    with a assms(2,3) show ?thesis by (simp add: entry_at_with_entry_same)
  next
    case False
    with a assms(1,2) valid' show ?thesis
      by (simp add: entry_at_with_entry_other on_path_def)
  qed
qed

lemma on_path_fht_insert:
  assumes "well_formed t" and "on_path H t"
  shows "on_path H (snd (fht_insert E H k v t))"
proof (cases "find (\<lambda>r. insert_test E k (entry_at t r)) (probes H t k)")
  case None
  with assms show ?thesis by (simp add: fht_insert_wf)
next
  case (Some r)
  then have "r \<in> set (probes H t k)" using find_SomeD by fastforce
  with assms probes_valid [OF assms(1)] have "on_path H (counted 1 r (with_entry t r (Entry k v True)))"
    by (intro on_path_store) simp_all
  with Some assms show ?thesis by (simp add: fht_insert_wf)
qed

lemma on_path_fht_delitem:
  assumes "well_formed t" and "on_path H t"
  shows "on_path H (snd (fht_delitem E H k t))"
proof (cases "find (\<lambda>r. lookup_test E k (entry_at t r)) (probes H t k)")
  case None
  with assms show ?thesis by (simp add: fht_delitem_wf)
next
  case (Some r)
  then have "r \<in> set (probes H t k)" using find_SomeD by fastforce
  with assms probes_valid [OF assms(1)] have "on_path H (counted (- 1) r (with_entry t r Entry0))"
    by (intro on_path_store) simp_all
  with Some assms show ?thesis by (simp add: fht_delitem_wf)
qed

lemma on_path_fht_pop:
  assumes "well_formed t" and "on_path H t"
  shows "on_path H (snd (fht_pop E H k dflt t))"
  using snd_fht_pop [of E H k dflt t] assms on_path_fht_delitem [OF assms, of E k] by auto

lemma on_path_delete_each:
  "well_formed t \<Longrightarrow> on_path H t \<Longrightarrow> on_path H (snd (delete_each E H ks t))"
proof (induction ks arbitrary: t)
  case Nil
  then show ?case by simp
next
  case (Cons k ks)
  from wf_fht_delitem [OF Cons.prems(1), of E H k] on_path_fht_delitem [OF Cons.prems, of E k] Cons.IH
  show ?case
    by (auto split: prod.split sum.split)
qed

lemma on_path_insert_each:
  "well_formed t \<Longrightarrow> on_path H t \<Longrightarrow> on_path H (snd (insert_each E H kvs t))"
proof (induction kvs arbitrary: t)
  case Nil
  then show ?case by simp
next
  case (Cons kv kvs)
  obtain k v where kv: "kv = (k, v)" by (cases kv)
  from wf_fht_insert [OF Cons.prems(1), of E H k v] on_path_fht_insert [OF Cons.prems, of E k v] Cons.IH
  show ?case
    by (auto simp: kv split: prod.split sum.split)
qed

lemma items_empty_iff: "fht_items t = [] \<longleftrightarrow> (\<forall>e \<in> set (all_entries t). \<not> occupied e)"
  by (simp add: fht_items_entries filter_empty_conv)

lemma on_path_empty:
  assumes "fht_items t = []"
  shows "on_path H t"
  using assms entry_at_in_entries [of t] by (auto simp: on_path_def items_empty_iff)

lemma on_path_fht_init:
  fixes t :: "('k, 'v) table"
  assumes "fht_init E H cap data dl rnd = Inr t"
  shows "on_path H t"
proof -
  from assms obtain t0 :: "('k, 'v) table" where new: "fht_new cap dl rnd = Inr t0"
    by (cases "fht_new cap dl rnd :: error + ('k, 'v) table") (auto simp: fht_init_def)
  then have t0: "well_formed t0" "on_path H t0"
    by (simp_all add: wf_fht_new fht_new_items on_path_empty)
  show ?thesis
  proof (cases data)
    case None
    with assms new t0 show ?thesis by (simp add: fht_init_def)
  next
    case (Some kvs)
    with assms new have "t = snd (insert_each E H kvs t0)"
      by (auto simp: fht_init_def split: prod.splits sum.splits)
    with on_path_insert_each [OF t0] show ?thesis by simp
  qed
qed

lemma reachable_on_path: "reachable E H t \<Longrightarrow> on_path H t"
proof (induction rule: reachable.induct)
  case (init cap data dl rnd t)
  then show ?case by (rule on_path_fht_init)
next
  case (call t c)
  then have "well_formed t" by (simp add: reachable_wf)
  with call.IH show ?case
    by (cases c) (simp_all add: on_path_fht_insert on_path_fht_delitem on_path_fht_pop
        fht_clear_def on_path_delete_each)
qed

lemma entry_in_entries_at:
  assumes "e \<in> set (all_entries t)"
  shows "\<exists>r. valid_slot t r \<and> entry_at t r = e"
proof -
  from assms consider (level) lv where "lv \<in> set (levels t)" "e \<in> set lv"
    | (special) "e \<in> set (special_array t)"
    by (auto simp: all_entries_def)
  then show ?thesis
  proof cases
    case level
    then obtain i j where "i < length (levels t)" "levels t ! i = lv" "j < length lv" "lv ! j = e"
      by (auto simp: in_set_conv_nth)
    then have "valid_slot t (LevelSlot i (int j)) \<and> entry_at t (LevelSlot i (int j)) = e"
      by simp
    then show ?thesis ..
  next
    case special
    then obtain j where "j < length (special_array t)" "special_array t ! j = e"
      by (auto simp: in_set_conv_nth)
    then have "valid_slot t (SpecialSlot (int j)) \<and> entry_at t (SpecialSlot (int j)) = e"
      by simp
    then show ?thesis ..
  qed
qed

lemma delitem_present:
  assumes "well_formed t" and "on_path H t" and "k \<in> set (fht_keys t)"
    and "\<forall>a \<in> set (fht_keys t). \<forall>b \<in> set (fht_keys t). E a b \<longleftrightarrow> a = b"
  shows "\<exists>r. valid_slot t r \<and> occupied (entry_at t r) \<and> key (entry_at t r) = k
    \<and> fht_delitem E H k t = (Inr (), counted (- 1) r (with_entry t r Entry0))"
proof -
  from assms(3) obtain e where "e \<in> set (all_entries t)" "occupied e" "key e = k"
    by (auto simp: fht_keys_def fht_items_entries pair_of_def)
  then obtain r0 where r0: "valid_slot t r0" "occupied (entry_at t r0)" "key (entry_at t r0) = k"
    using entry_in_entries_at by blast
  with assms(2) have "r0 \<in> set (probes H t k)" by (auto simp: on_path_def)
  moreover from assms(3,4) have "E k k" by simp
  ultimately have "find (\<lambda>r. lookup_test E k (entry_at t r)) (probes H t k) \<noteq> None"
    using r0 by (auto simp: find_None_iff lookup_test_def)
  then obtain r where r: "find (\<lambda>r. lookup_test E k (entry_at t r)) (probes H t k) = Some r"
    by blast
  then have valid: "valid_slot t r" and here: "lookup_test E k (entry_at t r)"
    using probes_valid [OF assms(1)] find_SomeD by fastforce+
  from here entry_at_in_entries [OF valid] have "key (entry_at t r) \<in> set (fht_keys t)"
    by (force simp: fht_keys_def fht_items_entries lookup_test_def pair_of_def)
  with assms(3,4) here have "key (entry_at t r) = k"
    by (simp add: lookup_test_def)
  with r valid here show ?thesis
    by (auto simp: fht_delitem_wf [OF assms(1)] lookup_test_def)
qed

lemma delete_each_all:
  assumes "well_formed t" and "on_path H t" and "mset ks = mset (fht_keys t)"
    and "\<forall>a \<in> set (fht_keys t). \<forall>b \<in> set (fht_keys t). E a b \<longleftrightarrow> a = b"
  shows "\<exists>t'. delete_each E H ks t = (Inr (), t') \<and> fht_items t' = []
    \<and> num_inserts t' = num_inserts t - int (length ks)"
  using assms
proof (induction ks arbitrary: t)
  case Nil
  then show ?case by (simp add: fht_keys_def)
next
  case (Cons k ks)
  from Cons.prems(3) have "k \<in> set (fht_keys t)"
    by (metis list.set_intros(1) mset_eq_setD)
  with Cons.prems(1,2,4) obtain r where r: "valid_slot t r" "occupied (entry_at t r)"
      "key (entry_at t r) = k"
    and del: "fht_delitem E H k t = (Inr (), counted (- 1) r (with_entry t r Entry0))"
    using delitem_present by blast
  let ?t1 = "counted (- 1) r (with_entry t r Entry0)"
  have in_items: "pair_of (entry_at t r) \<in># mset (fht_items t)"
    using r entry_at_in_entries [OF r(1)] by (simp add: fht_items_entries)
  have "mset (fht_items ?t1) = mset (fht_items t) - {#pair_of (entry_at t r)#}"
    using r by (simp add: mset_items_with_entry)
  then have "mset (fht_keys ?t1) = image_mset fst (mset (fht_items t) - {#pair_of (entry_at t r)#})"
    by (simp add: fht_keys_def)
  also have "\<dots> = mset (fht_keys t) - {#k#}"
    using in_items r(3)
    by (simp add: image_mset_Diff fht_keys_def pair_of_def)
  finally have keys_diff: "mset (fht_keys ?t1) = mset (fht_keys t) - {#k#}" .
  also have "\<dots> = mset ks"
    using Cons.prems(3) by (metis add_mset_remove_trivial mset.simps(2))
  finally have keys1: "mset ks = mset (fht_keys ?t1)" by simp
  have "set (fht_keys ?t1) \<subseteq> set (fht_keys t)"
    using keys_diff by (metis in_diffD set_mset_mset subsetI)
  with Cons.prems(4)
  have eq1: "\<forall>a \<in> set (fht_keys ?t1). \<forall>b \<in> set (fht_keys ?t1). E a b \<longleftrightarrow> a = b"
    by blast
  have wf1: "well_formed ?t1" using Cons.prems(1) by simp
  have path1: "on_path H ?t1"
    using Cons.prems(2) r(1) by (intro on_path_store) simp_all
  from Cons.IH [OF wf1 path1 keys1 eq1] obtain t' where
    "delete_each E H ks ?t1 = (Inr (), t')" "fht_items t' = []"
    "num_inserts t' = num_inserts ?t1 - int (length ks)"
    by blast
  with del show ?case
    by (simp add: num_inserts_counted)
qed

section \<open>The table of the README, evaluated\<close>

lemma log2_10_bounds: "13 < 4 * log 2 (10 :: real) \<and> 2 * log 2 (10 :: real) \<le> 7"
proof -
  have p4: "log 2 ((10 :: real) ^ 4) = 4 * log 2 10"
    by (subst log_nat_power) simp_all
  have p13: "log 2 ((2 :: real) ^ 13) = 13"
    by (subst log_nat_power) simp_all
  have "log 2 ((2 :: real) ^ 13) < log 2 ((10 :: real) ^ 4)"
    by (subst log_less_cancel_iff) simp_all
  then have lower: "13 < 4 * log 2 (10 :: real)"
    unfolding p4 p13 .
  have p2: "log 2 ((10 :: real) ^ 2) = 2 * log 2 10"
    by (subst log_nat_power) simp_all
  have p7: "log 2 ((2 :: real) ^ 7) = 7"
    by (subst log_nat_power) simp_all
  have "log 2 ((10 :: real) ^ 2) \<le> log 2 ((2 :: real) ^ 7)"
    by (subst log_le_cancel_iff) simp_all
  then have upper: "2 * log 2 (10 :: real) \<le> 7"
    unfolding p2 p7 .
  from lower upper show ?thesis ..
qed

lemma ceiling_log2_10: "\<lceil>2 * log 2 (10 :: real)\<rceil> = 7" "\<lceil>4 * log 2 (10 :: real)\<rceil> = 14"
  using log2_10_bounds by (simp_all add: ceiling_eq_iff)

lemma round_a1_readme:
  "py_round (4 / (4 * (1 - (3 / 4) ^ 24)) * (3 / 4) ^ 0) = 1"
  "py_round (4 / (4 * (1 - (3 / 4) ^ 24)) * (3 / 4) ^ 1) = 1"
  "py_round (4 / (4 * (1 - (3 / 4) ^ 24)) * (3 / 4) ^ 2) = 1"
  "py_round (4 / (4 * (1 - (3 / 4) ^ 24)) * (3 / 4) ^ 3) = 0"
  by code_simp+

lemma build_levels_four:
  assumes "py_round (a1 * (3 / 4) ^ 0) = 1" and "py_round (a1 * (3 / 4) ^ 1) = 1"
    and "py_round (a1 * (3 / 4) ^ 2) = 1" and "py_round (a1 * (3 / 4) ^ 3) = 0"
  shows "build_levels a1 7 rnd (0 # 1 # 2 # 3 # rest) 4 ([], [], []) =
     ([1, 1, 1, 1],
      [replicate 7 Entry0, replicate 7 Entry0, replicate 7 Entry0, replicate 7 Entry0],
      [rnd 0, rnd 1, rnd 2, rnd 3])"
  using assms by (simp add: build_levels_exhausted Let_def numeral_2_eq_2 numeral_3_eq_3)

lemma py_range_0_7: "py_range 0 7 = [0, 1, 2, 3, 4, 5, 6]"
  by (simp add: py_range_def upt_rec)

lemma wf_readme_table: "length lv = 7 \<Longrightarrow> well_formed (readme_table rnd lv n)"
  by (simp add: well_formed_def readme_table_def nth_Cons split: nat.split)

lemma probes_readme:
  "\<exists>rest. probes H (readme_table rnd lv n) k =
     LevelSlot 0 0 # LevelSlot 0 1 # rest"
proof -
  let ?t = "readme_table rnd lv n"
  have slots: "bucket_slots H ?t k 0 = [0, 1, 2, 3, 4, 5, 6]"
    by (simp add: bucket_slots_def readme_table_def py_range_0_7)
  have "0 < length (levels ?t)"
    by (simp add: readme_table_def)
  then have "[0..<length (levels ?t)] = 0 # [Suc 0..<length (levels ?t)]"
    by (rule upt_conv_Cons)
  then have "level_probes H ?t k [0..<length (levels ?t)] =
      map (LevelSlot 0) (bucket_slots H ?t k 0)
        @ level_probes H ?t k [Suc 0..<length (levels ?t)]"
    by (simp only: level_probes_def list.map concat.simps)
  then show ?thesis
    by (simp add: probes_def slots)
qed

lemma fht_new_readme:
  "fht_new 30 (1 / 10) rnd = Inr (readme_table rnd (replicate 7 Entry0) 0)"
proof -
  define a1 :: real where "a1 = 4 / (4 * (1 - (3 / 4) ^ 24))"
  have a1: "4 / (4 - 4 * (3 / 4) ^ 24) = a1"
    by (simp add: a1_def)
  have al: "\<lceil>4 * log 2 (1 / (1 / 10 :: real)) + 10\<rceil> = 24"
    and be: "\<lceil>2 * log 2 (1 / (1 / 10 :: real))\<rceil> = 7"
    by (simp_all add: ceiling_log2_10)
  have sizes: "py_int (1 / 10 * of_int 30) = 3" "py_int (3 * (1 / 10) * of_int 30 / 4) = 2"
    by (simp_all add: py_int_def)
  have upt: "[0..<24] = 0 # 1 # 2 # 3 # [4..<24]"
    by (simp add: upt_conv_Cons)
  have "build_levels a1 7 rnd [0..<24] 4 ([], [], []) =
     ([1, 1, 1, 1],
      [replicate 7 Entry0, replicate 7 (Entry0 :: ('a, 'b) entry), replicate 7 Entry0,
       replicate 7 Entry0],
      [rnd 0, rnd 1, rnd 2, rnd 3])"
    unfolding upt a1_def by (rule build_levels_four) (rule round_a1_readme)+
  moreover have "replicate 2 x = [x, x]" for x :: "('a, 'b) entry"
    by (simp add: numeral_2_eq_2)
  moreover have "rnd (Suc (Suc (Suc (Suc 0)))) = rnd 4"
    by (simp add: eval_nat_numeral)
  ultimately show ?thesis
    unfolding fht_new_def Let_def al be sizes
    by (simp add: a1 readme_table_def)
qed

lemma replicate_7: "replicate 7 x = [x, x, x, x, x, x, x]"
  by (simp add: eval_nat_numeral)

lemma insert_readme_first:
  assumes "length rest = 6" and "\<not> occupied e0 \<or> E (key e0) k"
  shows "fht_insert E H k v (readme_table rnd (e0 # rest) 0)
     = (Inr (), readme_table rnd (Entry k v True # rest) 1)"
proof -
  let ?t = "readme_table rnd (e0 # rest) 0"
  obtain ps where p: "probes H ?t k = LevelSlot 0 0 # LevelSlot 0 1 # ps"
    using probes_readme by blast
  have wft: "well_formed ?t" using assms(1) by (simp add: wf_readme_table)
  have e: "entry_at ?t (LevelSlot 0 0) = e0"
    by (simp add: readme_table_def)
  have f: "find (\<lambda>r. insert_test E k (entry_at ?t r)) (probes H ?t k) = Some (LevelSlot 0 0)"
    using assms(2) by (simp add: p e insert_test_def del: entry_at.simps)
  have n: "\<not> max_inserts ?t \<le> num_inserts ?t"
    by (simp add: readme_table_def)
  have w: "counted 1 (LevelSlot 0 0) (with_entry ?t (LevelSlot 0 0) (Entry k v True))
      = readme_table rnd (Entry k v True # rest) 1"
    by (simp add: readme_table_def)
  show ?thesis
    by (simp add: fht_insert_wf [OF wft] f n w del: counted.simps with_entry.simps)
qed

lemma insert_readme_second:
  assumes "length rest = 5" and "occupied e0" and "\<not> E (key e0) k" and "\<not> occupied e1 \<or> E (key e1) k"
  shows "fht_insert E H k v (readme_table rnd (e0 # e1 # rest) 1)
     = (Inr (), readme_table rnd (e0 # Entry k v True # rest) 2)"
proof -
  let ?t = "readme_table rnd (e0 # e1 # rest) 1"
  obtain ps where p: "probes H ?t k = LevelSlot 0 0 # LevelSlot 0 1 # ps"
    using probes_readme by blast
  have wft: "well_formed ?t" using assms(1) by (simp add: wf_readme_table)
  have e: "entry_at ?t (LevelSlot 0 0) = e0" "entry_at ?t (LevelSlot 0 1) = e1"
    by (simp_all add: readme_table_def)
  have f: "find (\<lambda>r. insert_test E k (entry_at ?t r)) (probes H ?t k) = Some (LevelSlot 0 1)"
    using assms(2,3,4) by (simp add: p e insert_test_def del: entry_at.simps)
  have n: "\<not> max_inserts ?t \<le> num_inserts ?t"
    by (simp add: readme_table_def)
  have w: "counted 1 (LevelSlot 0 1) (with_entry ?t (LevelSlot 0 1) (Entry k v True))
      = readme_table rnd (e0 # Entry k v True # rest) 2"
    by (simp add: readme_table_def)
  show ?thesis
    by (simp add: fht_insert_wf [OF wft] f n w del: counted.simps with_entry.simps)
qed

lemma get_readme_first:
  assumes "length rest = 6" and "occupied e0" and "E (key e0) k"
  shows "fht_get E H k dflt (readme_table rnd (e0 # rest) n) = Inr (val e0)"
proof -
  let ?t = "readme_table rnd (e0 # rest) n"
  obtain ps where p: "probes H ?t k = LevelSlot 0 0 # LevelSlot 0 1 # ps"
    using probes_readme by blast
  have wft: "well_formed ?t" using assms(1) by (simp add: wf_readme_table)
  have e: "entry_at ?t (LevelSlot 0 0) = e0"
    by (simp add: readme_table_def)
  have f: "find (\<lambda>r. lookup_test E k (entry_at ?t r)) (probes H ?t k) = Some (LevelSlot 0 0)"
    using assms(2,3) by (simp add: p e lookup_test_def del: entry_at.simps)
  show ?thesis
    by (simp add: fht_get_wf [OF wft] f e del: entry_at.simps)
qed

lemma get_readme_second:
  assumes "length rest = 5" and "\<not> E (key e0) k" and "occupied e1" and "E (key e1) k"
  shows "fht_get E H k dflt (readme_table rnd (e0 # e1 # rest) n) = Inr (val e1)"
proof -
  let ?t = "readme_table rnd (e0 # e1 # rest) n"
  obtain ps where p: "probes H ?t k = LevelSlot 0 0 # LevelSlot 0 1 # ps"
    using probes_readme by blast
  have wft: "well_formed ?t" using assms(1) by (simp add: wf_readme_table)
  have e: "entry_at ?t (LevelSlot 0 0) = e0" "entry_at ?t (LevelSlot 0 1) = e1"
    by (simp_all add: readme_table_def)
  have f: "find (\<lambda>r. lookup_test E k (entry_at ?t r)) (probes H ?t k) = Some (LevelSlot 0 1)"
    using assms(2,3,4) by (simp add: p e lookup_test_def del: entry_at.simps)
  show ?thesis
    by (simp add: fht_get_wf [OF wft] f e del: entry_at.simps)
qed

section \<open>The claims\<close>

text \<open>
  C1 holds of the keys that are equal to themselves, and of no other key. For a key \<open>k\<close>
  with \<^verbatim>\<open>k == k\<close>: if \<^verbatim>\<open>insert(k, v)\<close> succeeds, then \<^verbatim>\<open>get(k)\<close> returns \<open>v\<close> and
  \<^verbatim>\<open>k in table\<close> is true, immediately (\<open>cs = []\<close>) and after any calls \<open>cs\<close> none of
  which is a \<^verbatim>\<open>clear()\<close>, a delete or pop of a key that \<open>k\<close> equals, or an insert of a
  key that \<open>k\<close> equals or that equals \<open>k\<close>. The table is any table with the layout the
  constructor builds (\<open>well_formed\<close>); every table the constructor and the methods
  produce is one (\<open>reachable_wf\<close>).
\<close>

theorem insert_then_get:
  assumes "well_formed t" and "E k k" and "fht_insert E H k v t = (Inr (), t')"
    and "\<forall>c \<in> set cs. leaves_key E k c"
  shows "fht_get E H k dflt (run E H cs t') = Inr v \<and> fht_contains E H k (run E H cs t') = Inr True"
proof -
  have wft': "well_formed t'" using wf_fht_insert [OF assms(1), of E H k v] assms(3) by simp
  have "stored E H t' k v"
    using assms(1,2,3) by (rule stored_after_insert)
  with wft' have "stored E H (run E H cs t') k v"
    using assms(4) by (rule stored_run)
  moreover have "well_formed (run E H cs t')"
    using wft' by (rule wf_run)
  ultimately have "fht_get E H k d (run E H cs t') = Inr v" for d
    by (intro stored_get)
  then show ?thesis
    by (simp add: fht_contains_def)
qed

theorem insert_then_get_witness:
  "well_formed (demo [Entry0, Entry0] 0)
   \<and> (Py 1 :: int pyobj) = Py 1
   \<and> fht_insert (=) hash0 (Py 1) (Py 10) (demo [Entry0, Entry0] 0)
       = (Inr (), demo [Entry (Py 1) (Py 10) True, Entry0] 1)
   \<and> leaves_key (=) (Py 1) (Insert (Py 2) (Py 20) :: (int, int) call)
   \<and> leaves_key (=) (Py 1) (Delete (Py 2) :: (int, int) call)
   \<and> fht_get (=) hash0 (Py 1) NoFallback
        (run (=) hash0 [Insert (Py 2) (Py 20), Delete (Py 2)]
          (demo [Entry (Py 1) (Py 10) True, Entry0] 1)) = Inr (Py 10)
   \<and> fht_contains (=) hash0 (Py 1)
        (run (=) hash0 [Insert (Py 2) (Py 20), Delete (Py 2)]
          (demo [Entry (Py 1) (Py 10) True, Entry0] 1)) = Inr True"
proof -
  have h1: "well_formed (demo [Entry0, Entry0] 0)"
    by (rule wf_small_table)
  have h2: "(Py 1 :: int pyobj) = Py 1"
    by simp
  have h3: "fht_insert (=) hash0 (Py 1) (Py 10) (demo [Entry0, Entry0] 0)
       = (Inr (), demo [Entry (Py 1) (Py 10) True, Entry0] 1)"
    by (simp add: insert_small_first)
  have h4: "\<forall>c \<in> set [Insert (Py 2) (Py 20), Delete (Py 2) :: (int, int) call].
      leaves_key (=) (Py 1) c"
    by simp
  from insert_then_get [OF h1 h2 h3 h4, of NoFallback] h1 h3 show ?thesis
    by simp
qed

text \<open>
  C1, as it is stated for every key, fails for a key that is not equal to itself: it is
  not found again. In \<^verbatim>\<open>FunnelHashTable(3, delta=0.5)\<close>,
  \<^verbatim>\<open>insert(nan, 1)\<close> with \<^verbatim>\<open>nan = float('nan')\<close> succeeds and stores the pair in the
  first slot; then \<^verbatim>\<open>get(nan)\<close> raises \<^verbatim>\<open>KeyError\<close> and \<^verbatim>\<open>nan in table\<close> is false.
\<close>

theorem nan_key_not_found:
  "fht_init float_eq float_hash 3 None (1 / 2) salt0 = Inr (nan_demo [Entry0, Entry0] 0)
   \<and> fht_insert float_eq float_hash (Py NaN) (Py 1) (nan_demo [Entry0, Entry0] 0)
       = (Inr (), nan_demo [Entry (Py NaN) (Py 1) True, Entry0] 1)
   \<and> fht_get float_eq float_hash (Py NaN) NoFallback (nan_demo [Entry (Py NaN) (Py 1) True, Entry0] 1)
       = Inl KeyError
   \<and> fht_contains float_eq float_hash (Py NaN) (nan_demo [Entry (Py NaN) (Py 1) True, Entry0] 1)
       = Inr False"
  by (simp add: fht_init_small insert_small_first get_small_none fht_contains_def)

text \<open>
  C2 does not hold of the code. \<^verbatim>\<open>insert\<close> takes the first slot of the walk that is free
  or holds the key, so a slot freed in front of the key's slot is taken first: after
  \<^verbatim>\<open>t[1] = 10; t[2] = 20; del t[1]; t[2] = 30\<close> on \<^verbatim>\<open>FunnelHashTable(3, delta=0.5)\<close>
  the key 2 occupies both slots of the level, and the re-insertion has raised the number
  of occupied slots from one to two.
\<close>

theorem key_in_two_slots:
  "fht_init (=) hash0 3 None (1 / 2) salt0 = Inr (demo [Entry0, Entry0] 0)
   \<and> run (=) hash0 [Insert (Py 1) (Py 10), Insert (Py 2) (Py 20), Delete (Py 1)]
        (demo [Entry0, Entry0] 0)
       = demo [Entry0, Entry (Py 2) (Py 20) True] 1
   \<and> fht_items (demo [Entry0, Entry (Py 2) (Py 20) True] 1) = [(Py 2, Py 20)]
   \<and> run (=) hash0 [Insert (Py 2) (Py 30)] (demo [Entry0, Entry (Py 2) (Py 20) True] 1)
       = demo [Entry (Py 2) (Py 30) True, Entry (Py 2) (Py 20) True] 2
   \<and> fht_items (demo [Entry (Py 2) (Py 30) True, Entry (Py 2) (Py 20) True] 2)
       = [(Py 2, Py 30), (Py 2, Py 20)]"
  by (simp add: fht_init_small insert_small_first insert_small_second delitem_small_first
      items_small)

text \<open>
  C3 does not hold of the code. After
  \<^verbatim>\<open>t[1] = 10; t[2] = 20; del t[1]; t[2] = 30\<close> on \<^verbatim>\<open>FunnelHashTable(3, delta=0.5)\<close>,
  where the key 2 occupies two slots, \<^verbatim>\<open>del t[2]\<close> succeeds and empties the first slot
  only: \<^verbatim>\<open>get(2)\<close> then returns the older value 20 and \<^verbatim>\<open>2 in t\<close> is true.
\<close>

theorem get_after_delete_finds_key:
  "run (=) hash0 [Insert (Py 1) (Py 10), Insert (Py 2) (Py 20), Delete (Py 1), Insert (Py 2) (Py 30)]
      (demo [Entry0, Entry0] 0)
     = demo [Entry (Py 2) (Py 30) True, Entry (Py 2) (Py 20) True] 2
   \<and> fht_delitem (=) hash0 (Py 2) (demo [Entry (Py 2) (Py 30) True, Entry (Py 2) (Py 20) True] 2)
       = (Inr (), demo [Entry0, Entry (Py 2) (Py 20) True] 1)
   \<and> fht_get (=) hash0 (Py 2) NoFallback (demo [Entry0, Entry (Py 2) (Py 20) True] 1) = Inr (Py 20)
   \<and> fht_contains (=) hash0 (Py 2) (demo [Entry0, Entry (Py 2) (Py 20) True] 1) = Inr True"
  by (simp add: insert_small_first insert_small_second delitem_small_first get_small_second
      fht_contains_def)

text \<open>
  C4. Every successful \<^verbatim>\<open>insert\<close> adds one to \<^verbatim>\<open>num_inserts\<close>, which is
  \<^verbatim>\<open>len(table)\<close>. When the slot it writes was occupied (by a key equal to the one
  inserted, then), the number of occupied slots stays, so the length can exceed the
  number of occupied slots; some reachable table shows it, provided the key inserted is
  equal to itself.
\<close>

theorem insert_counts_every_call:
  fixes t :: "('k, 'v) table"
  assumes "well_formed t" and "fht_insert E H k v t = (Inr (), t')"
  shows "fht_len t' = fht_len t + 1
    \<and> (\<forall>r ent. find_slot H (\<lambda>e. \<not> occupied e \<or> E (key e) k) t k = Inr (Some (r, ent))
          \<and> occupied ent
          \<longrightarrow> E (key ent) k \<and> length (fht_items t') = length (fht_items t))
    \<and> (E k k \<longrightarrow>
          (\<exists>s :: ('k, 'v) table. reachable E H s \<and> int (length (fht_items s)) < fht_len s))"
proof -
  from assms obtain r where r: "find (\<lambda>r. insert_test E k (entry_at t r)) (probes H t k) = Some r"
    and t': "t' = counted 1 r (with_entry t r (Entry k v True))"
    by (auto simp: fht_insert_wf split: if_splits option.splits)
  from r have valid: "valid_slot t r"
    using probes_valid [OF assms(1)] find_SomeD by fastforce
  have len: "fht_len t' = fht_len t + 1"
    by (simp add: fht_len_def t' num_inserts_counted)
  have over: "E (key ent) k \<and> length (fht_items t') = length (fht_items t)"
    if found: "find_slot H (\<lambda>e. \<not> occupied e \<or> E (key e) k) t k = Inr (Some (r', ent))"
      and occ: "occupied ent" for r' ent
  proof -
    from found r have ent: "ent = entry_at t r"
      by (simp add: find_slot_first [OF assms(1)] first_slot_def insert_test_def)
    from r have "insert_test E k (entry_at t r)" using find_SomeD by fastforce
    with occ ent have key: "E (key ent) k" by (simp add: insert_test_def)
    have mem: "pair_of ent \<in># mset (fht_items t)"
      using entry_at_in_entries [OF valid] occ ent by (simp add: fht_items_entries)
    then have "0 < length (fht_items t)"
      by (auto intro: length_pos_if_in_set)
    with mem have "size (mset (fht_items t')) = size (mset (fht_items t))"
      using occ ent by (simp add: t' mset_items_with_entry [OF valid] size_Diff_singleton)
    with key show ?thesis by simp
  qed
  have more: "\<exists>s :: ('k, 'v) table. reachable E H s \<and> int (length (fht_items s)) < fht_len s"
    if refl: "E k k"
  proof -
    let ?s = "small_table (\<lambda>n. 0) [Entry k v True, Entry0] 2 :: ('k, 'v) table"
    have "run E H [Insert k v, Insert k v] (small_table (\<lambda>n. 0) [Entry0, Entry0] 0) = ?s"
      using refl by (simp add: insert_small_first)
    moreover have "reachable E H (run E H [Insert k v, Insert k v]
        (small_table (\<lambda>n. 0) [Entry0, Entry0] 0 :: ('k, 'v) table))"
      by (rule reachable_small)
    ultimately have "reachable E H ?s" by simp
    moreover have "int (length (fht_items ?s)) < fht_len ?s"
      by (simp add: items_small len_small)
    ultimately show ?thesis by blast
  qed
  from len over more show ?thesis by blast
qed

theorem insert_counts_every_call_witness:
  "well_formed (demo [Entry (Py 1) (Py 10) True, Entry0] 1)
   \<and> fht_insert (=) hash0 (Py 1) (Py 11) (demo [Entry (Py 1) (Py 10) True, Entry0] 1)
       = (Inr (), demo [Entry (Py 1) (Py 11) True, Entry0] 2)
   \<and> find_slot hash0 (\<lambda>e. \<not> occupied e \<or> key e = Py 1) (demo [Entry (Py 1) (Py 10) True, Entry0] 1) (Py 1)
       = Inr (Some (LevelSlot 0 0, Entry (Py 1) (Py 10) True))
   \<and> fht_len (demo [Entry (Py 1) (Py 11) True, Entry0] 2) = 2
   \<and> length (fht_items (demo [Entry (Py 1) (Py 11) True, Entry0] 2)) = 1
   \<and> (\<exists>s :: (int, int) table. reachable (=) hash0 s \<and> int (length (fht_items s)) < fht_len s)"
proof -
  have h1: "well_formed (demo [Entry (Py 1) (Py 10) True, Entry0] 1)"
    by (rule wf_small_table)
  have h2: "fht_insert (=) hash0 (Py 1) (Py 11) (demo [Entry (Py 1) (Py 10) True, Entry0] 1)
       = (Inr (), demo [Entry (Py 1) (Py 11) True, Entry0] 2)"
    by (simp add: insert_small_first)
  have h3: "find_slot hash0 (\<lambda>e. \<not> occupied e \<or> key e = Py 1)
      (demo [Entry (Py 1) (Py 10) True, Entry0] 1) (Py 1)
       = Inr (Some (LevelSlot 0 0, Entry (Py 1) (Py 10) True))"
    by (simp add: find_small)
  have h4: "fht_len (demo [Entry (Py 1) (Py 10) True, Entry0] 1) = 1"
    by (simp add: len_small)
  have h5: "length (fht_items (demo [Entry (Py 1) (Py 10) True, Entry0] 1)) = 1"
    by (simp add: items_small)
  from insert_counts_every_call [OF h1 h2] h3 h4 h5
  have "fht_len (demo [Entry (Py 1) (Py 11) True, Entry0] 2) = 2
     \<and> length (fht_items (demo [Entry (Py 1) (Py 11) True, Entry0] 2)) = 1
     \<and> (\<exists>s :: (int, int) table. reachable (=) hash0 s \<and> int (length (fht_items s)) < fht_len s)"
    by auto
  with h1 h2 h3 show ?thesis by blast
qed

text \<open>
  C5. \<^verbatim>\<open>insert\<close> called when \<^verbatim>\<open>num_inserts >= max_inserts\<close> raises
  \<^verbatim>\<open>RuntimeError("Hash table is full.")\<close> and leaves the table as it was.
\<close>

theorem insert_when_full:
  assumes "max_inserts t \<le> num_inserts t"
  shows "fht_insert E H k v t = (Inl HashTableFull, t)"
  using assms by (simp add: fht_insert_def)

theorem insert_when_full_witness:
  "max_inserts (demo [Entry (Py 1) (Py 10) True, Entry (Py 2) (Py 20) True] 2)
     \<le> num_inserts (demo [Entry (Py 1) (Py 10) True, Entry (Py 2) (Py 20) True] 2)
   \<and> fht_insert (=) hash0 (Py 3) (Py 30) (demo [Entry (Py 1) (Py 10) True, Entry (Py 2) (Py 20) True] 2)
       = (Inl HashTableFull, demo [Entry (Py 1) (Py 10) True, Entry (Py 2) (Py 20) True] 2)"
proof -
  have h: "max_inserts (demo [Entry (Py 1) (Py 10) True, Entry (Py 2) (Py 20) True] 2)
     \<le> num_inserts (demo [Entry (Py 1) (Py 10) True, Entry (Py 2) (Py 20) True] 2)"
    by (simp add: small_table_def)
  from insert_when_full [OF h] h show ?thesis by simp
qed

text \<open>
  C6 does not hold of the code. \<^verbatim>\<open>clear()\<close> deletes once per occupied slot, and an
  insert that overwrote a key has counted without occupying a slot: after
  \<^verbatim>\<open>t[1] = 10; t[1] = 11; t.clear()\<close> on \<^verbatim>\<open>FunnelHashTable(3, delta=0.5)\<close> every slot is
  free and the iteration is empty, but \<^verbatim>\<open>len(t)\<close> is 1.
\<close>

theorem clear_leaves_count:
  "run (=) hash0 [Insert (Py 1) (Py 10), Insert (Py 1) (Py 11)] (demo [Entry0, Entry0] 0)
     = demo [Entry (Py 1) (Py 11) True, Entry0] 2
   \<and> fht_clear (=) hash0 (demo [Entry (Py 1) (Py 11) True, Entry0] 2)
       = (Inr (), demo [Entry0, Entry0] 1)
   \<and> fht_len (demo [Entry0, Entry0] 1) = 1
   \<and> fht_items (demo [Entry0, Entry0] 1) = []"
  by (simp add: insert_small_first fht_clear_def fht_keys_def items_small delitem_small_first
      len_small)

text \<open>
  C7 holds of the iteration, and of \<^verbatim>\<open>get\<close> for the keys that are equal to themselves.
  Insert pairs with distinct keys, no key equal to another, into a fresh table, in the
  order \<open>kvs\<close> and in another order \<open>kvs'\<close>, every insert succeeding. Then the iteration
  of either table yields exactly the pairs inserted; \<^verbatim>\<open>get(k)\<close> returns, from either
  table, the value of every key inserted that is equal to itself; and a key that no
  inserted key equals is found in neither.
\<close>

theorem round_trip:
  fixes t0 :: "('k, 'v) table"
  assumes "fht_init E H cap None dl rnd = Inr t0"
    and "distinct (map fst kvs)" and "mset kvs' = mset kvs"
    and "\<forall>a \<in> fst ` set kvs. \<forall>b \<in> fst ` set kvs. a \<noteq> b \<longrightarrow> \<not> E a b"
    and "insert_each E H kvs t0 = (Inr (), t)"
    and "insert_each E H kvs' t0 = (Inr (), t')"
  shows "mset (fht_items t) = mset kvs
    \<and> mset (fht_items t') = mset (fht_items t)
    \<and> (\<forall>(k, v) \<in> set kvs. E k k \<longrightarrow>
          fht_get E H k NoFallback t = Inr v \<and> fht_get E H k NoFallback t' = Inr v)
    \<and> (\<forall>k. (\<forall>a \<in> fst ` set kvs. \<not> E a k) \<longrightarrow>
          fht_get E H k NoFallback t = Inl KeyError \<and> fht_get E H k NoFallback t' = Inl KeyError)"
proof -
  from assms(1) have new: "fht_new cap dl rnd = Inr t0"
    by (cases "fht_new cap dl rnd :: error + ('k, 'v) table") (simp_all add: fht_init_def)
  then have wf0: "well_formed t0" and empty: "fht_items t0 = []"
    by (simp_all add: wf_fht_new fht_new_items)
  from assms(3) have set_eq: "set kvs' = set kvs" by (rule mset_eq_setD)
  have "mset (map fst kvs') = mset (map fst kvs)"
    using assms(3) by (metis mset_map)
  with assms(2) have dist': "distinct (map fst kvs')"
    by (metis mset_eq_imp_distinct_iff)
  from assms(4) have apart': "\<forall>a \<in> fst ` set kvs'. \<forall>b \<in> fst ` set kvs'. a \<noteq> b \<longrightarrow> \<not> E a b"
    by (simp add: set_eq)
  have wft: "well_formed t" using insert_each_keeps [OF wf0, of E H kvs] assms(5) by simp
  have wft': "well_formed t'" using insert_each_keeps [OF wf0, of E H kvs'] assms(6) by simp
  have items: "mset (fht_items t) = mset kvs"
    using insert_each_items [OF wf0 assms(2) _ _ assms(5)] assms(4) by (simp add: empty)
  have items': "mset (fht_items t') = mset kvs'"
    using insert_each_items [OF wf0 dist' _ _ assms(6)] apart' by (simp add: empty)
  have gets: "fht_get E H k NoFallback t = Inr v \<and> fht_get E H k NoFallback t' = Inr v"
    if "(k, v) \<in> set kvs" and "E k k" for k v
    using insert_each_get [OF wf0 assms(2,4,5) that]
      insert_each_get [OF wf0 dist' apart' assms(6) that(1) [folded set_eq] that(2)]
    by simp
  have absent: "fht_get E H k NoFallback t = Inl KeyError \<and> fht_get E H k NoFallback t' = Inl KeyError"
    if no: "\<forall>a \<in> fst ` set kvs. \<not> E a k" for k
  proof -
    from items have s: "set (fht_items t) = set kvs" by (rule mset_eq_setD)
    from items' have "set (fht_items t') = set kvs'" by (rule mset_eq_setD)
    then have s': "set (fht_items t') = set kvs" by (simp only: set_eq)
    from no have "fht_get E H k NoFallback t = Inl KeyError"
      unfolding s [symmetric] by (rule get_absent [OF wft])
    moreover from no have "fht_get E H k NoFallback t' = Inl KeyError"
      unfolding s' [symmetric] by (rule get_absent [OF wft'])
    ultimately show ?thesis ..
  qed
  have c1: "mset (fht_items t') = mset (fht_items t)"
    using items items' assms(3) by simp
  have c2: "\<forall>(k, v) \<in> set kvs. E k k \<longrightarrow>
      fht_get E H k NoFallback t = Inr v \<and> fht_get E H k NoFallback t' = Inr v"
    using gets by blast
  have c3: "\<forall>k. (\<forall>a \<in> fst ` set kvs. \<not> E a k) \<longrightarrow>
      fht_get E H k NoFallback t = Inl KeyError \<and> fht_get E H k NoFallback t' = Inl KeyError"
    using absent by blast
  from items c1 c2 c3 show ?thesis by (intro conjI)
qed

theorem round_trip_witness:
  "fht_init (=) hash0 3 None (1 / 2) salt0 = Inr (demo [Entry0, Entry0] 0)
   \<and> distinct (map fst [(Py 1 :: int pyobj, Py 10 :: int pyobj), (Py 2, Py 20)])
   \<and> mset [(Py 2 :: int pyobj, Py 20 :: int pyobj), (Py 1, Py 10)] = mset [(Py 1, Py 10), (Py 2, Py 20)]
   \<and> insert_each (=) hash0 [(Py 1, Py 10), (Py 2, Py 20)] (demo [Entry0, Entry0] 0)
       = (Inr (), demo [Entry (Py 1) (Py 10) True, Entry (Py 2) (Py 20) True] 2)
   \<and> insert_each (=) hash0 [(Py 2, Py 20), (Py 1, Py 10)] (demo [Entry0, Entry0] 0)
       = (Inr (), demo [Entry (Py 2) (Py 20) True, Entry (Py 1) (Py 10) True] 2)
   \<and> mset (fht_items (demo [Entry (Py 1) (Py 10) True, Entry (Py 2) (Py 20) True] 2))
       = mset [(Py 1, Py 10), (Py 2, Py 20)]
   \<and> mset (fht_items (demo [Entry (Py 2) (Py 20) True, Entry (Py 1) (Py 10) True] 2))
       = mset (fht_items (demo [Entry (Py 1) (Py 10) True, Entry (Py 2) (Py 20) True] 2))
   \<and> fht_get (=) hash0 (Py 1) NoFallback (demo [Entry (Py 1) (Py 10) True, Entry (Py 2) (Py 20) True] 2)
       = Inr (Py 10)
   \<and> fht_get (=) hash0 (Py 1) NoFallback (demo [Entry (Py 2) (Py 20) True, Entry (Py 1) (Py 10) True] 2)
       = Inr (Py 10)
   \<and> fht_get (=) hash0 (Py 2) NoFallback (demo [Entry (Py 1) (Py 10) True, Entry (Py 2) (Py 20) True] 2)
       = Inr (Py 20)
   \<and> fht_get (=) hash0 (Py 2) NoFallback (demo [Entry (Py 2) (Py 20) True, Entry (Py 1) (Py 10) True] 2)
       = Inr (Py 20)
   \<and> fht_get (=) hash0 (Py 3) NoFallback (demo [Entry (Py 1) (Py 10) True, Entry (Py 2) (Py 20) True] 2)
       = Inl KeyError
   \<and> fht_get (=) hash0 (Py 3) NoFallback (demo [Entry (Py 2) (Py 20) True, Entry (Py 1) (Py 10) True] 2)
       = Inl KeyError"
proof -
  have h1: "fht_init (=) hash0 3 None (1 / 2) salt0 = Inr (demo [Entry0, Entry0] 0)"
    by (rule fht_init_small)
  have h2: "distinct (map fst [(Py 1 :: int pyobj, Py 10 :: int pyobj), (Py 2, Py 20)])"
    by simp
  have h3: "mset [(Py 2 :: int pyobj, Py 20 :: int pyobj), (Py 1, Py 10)]
      = mset [(Py 1, Py 10), (Py 2, Py 20)]"
    by simp
  have h4: "\<forall>a \<in> fst ` set [(Py 1 :: int pyobj, Py 10 :: int pyobj), (Py 2, Py 20)].
      \<forall>b \<in> fst ` set [(Py 1 :: int pyobj, Py 10 :: int pyobj), (Py 2, Py 20)]. a \<noteq> b \<longrightarrow> \<not> a = b"
    by simp
  have h5: "insert_each (=) hash0 [(Py 1, Py 10), (Py 2, Py 20)] (demo [Entry0, Entry0] 0)
       = (Inr (), demo [Entry (Py 1) (Py 10) True, Entry (Py 2) (Py 20) True] 2)"
    by (simp add: insert_small_first insert_small_second)
  have h6: "insert_each (=) hash0 [(Py 2, Py 20), (Py 1, Py 10)] (demo [Entry0, Entry0] 0)
       = (Inr (), demo [Entry (Py 2) (Py 20) True, Entry (Py 1) (Py 10) True] 2)"
    by (simp add: insert_small_first insert_small_second)
  from round_trip [OF h1 h2 h3 h4 h5 h6] h1 h2 h3 h5 h6 show ?thesis
    by simp
qed

text \<open>
  C7, as it is stated for any distinct keys, fails for a key that is not equal to itself:
  \<^verbatim>\<open>get\<close> does not read it back. Insert
  \<^verbatim>\<open>(nan, 1)\<close> and \<^verbatim>\<open>(2.0, 2)\<close> into a fresh \<^verbatim>\<open>FunnelHashTable(3, delta=0.5)\<close>, in
  either order: all inserts succeed, and \<^verbatim>\<open>get(nan)\<close> raises \<^verbatim>\<open>KeyError\<close> on both
  tables.
\<close>

theorem nan_not_read_back:
  "fht_init float_eq float_hash 3 None (1 / 2) salt0 = Inr (nan_demo [Entry0, Entry0] 0)
   \<and> distinct (map fst [(Py NaN, Py 1 :: int pyobj), (Py (FloatVal 2), Py 2)])
   \<and> insert_each float_eq float_hash [(Py NaN, Py 1), (Py (FloatVal 2), Py 2)] (nan_demo [Entry0, Entry0] 0)
       = (Inr (), nan_demo [Entry (Py NaN) (Py 1) True, Entry (Py (FloatVal 2)) (Py 2) True] 2)
   \<and> insert_each float_eq float_hash [(Py (FloatVal 2), Py 2), (Py NaN, Py 1)] (nan_demo [Entry0, Entry0] 0)
       = (Inr (), nan_demo [Entry (Py (FloatVal 2)) (Py 2) True, Entry (Py NaN) (Py 1) True] 2)
   \<and> fht_get float_eq float_hash (Py NaN) NoFallback
        (nan_demo [Entry (Py NaN) (Py 1) True, Entry (Py (FloatVal 2)) (Py 2) True] 2) = Inl KeyError
   \<and> fht_get float_eq float_hash (Py NaN) NoFallback
        (nan_demo [Entry (Py (FloatVal 2)) (Py 2) True, Entry (Py NaN) (Py 1) True] 2) = Inl KeyError"
  by (simp add: fht_init_small insert_small_first insert_small_second get_small_none)

text \<open>
  C8. For a capacity of at least 1 (and within a C \<^verbatim>\<open>int\<close>) and \<open>0 < delta < 1\<close> the
  constructor, its \<^verbatim>\<open>double\<close>s read as reals, returns a table, and in every table it
  returns, with or without initial data, the level slots \<open>level_bucket_counts[i] * beta\<close>
  and the \<open>special_size\<close> slots of the special array add up to at most \<open>capacity\<close>.
\<close>

theorem slot_budget:
  fixes H :: "'k pyobj \<Rightarrow> int"
  assumes "1 \<le> cap" and "cap < 2 ^ 31" and "0 < dl" and "dl < 1"
  shows "(\<exists>t :: ('k, 'v) table. fht_init E H cap None dl rnd = Inr t)
    \<and> (\<forall>data (t :: ('k, 'v) table). fht_init E H cap data dl rnd = Inr t
          \<longrightarrow> capacity t = cap
            \<and> (\<Sum>c\<leftarrow>level_bucket_counts t. c * beta t) + special_size t \<le> capacity t)"
proof -
  from fht_new_succeeds [OF assms] obtain t0 :: "('k, 'v) table"
    where "fht_new cap dl rnd = Inr t0" ..
  then have "fht_init E H cap None dl rnd = Inr t0" by (simp add: fht_init_def)
  moreover have "capacity t = cap
      \<and> (\<Sum>c\<leftarrow>level_bucket_counts t. c * beta t) + special_size t \<le> capacity t"
    if "fht_init E H cap data dl rnd = Inr t" for data and t :: "('k, 'v) table"
  proof -
    from that obtain t1 :: "('k, 'v) table"
      where new: "fht_new cap dl rnd = Inr t1" and same: "layout t = layout t1"
      by (rule fht_init_cases)
    from same have "capacity t = capacity t1" "level_bucket_counts t = level_bucket_counts t1"
      "beta t = beta t1" "special_size t = special_size t1"
      by (simp_all add: layout_def)
    with fht_new_budget [OF new] fht_new_fields(5) [OF new] show ?thesis by simp
  qed
  ultimately show ?thesis by blast
qed

theorem slot_budget_witness:
  "(1 :: int) \<le> 3 \<and> (3 :: int) < 2 ^ 31 \<and> (0 :: real) < 1 / 2 \<and> (1 / 2 :: real) < 1
   \<and> fht_init (=) hash0 3 None (1 / 2) salt0 = Inr (demo [Entry0, Entry0] 0)
   \<and> (\<Sum>c\<leftarrow>level_bucket_counts (demo [Entry0, Entry0] 0). c * beta (demo [Entry0, Entry0] 0))
        + special_size (demo [Entry0, Entry0] 0) \<le> capacity (demo [Entry0, Entry0] 0)"
proof -
  have h: "(1 :: int) \<le> 3" "(3 :: int) < 2 ^ 31" "(0 :: real) < 1 / 2" "(1 / 2 :: real) < 1"
    by simp_all
  have i: "fht_init (=) hash0 3 None (1 / 2) salt0 = Inr (demo [Entry0, Entry0] 0)"
    by (rule fht_init_small)
  from slot_budget [OF h, of "(=)" hash0 salt0] i h show ?thesis
    by blast
qed

text \<open>
  C10. In every reachable table and for every key: the salted hash is a non-negative
  31-bit integer; every level has a bucket count of at least 1, and the slots the walk
  reads in the key's bucket lie inside the level's slot list; the special array has
  \<open>special_size \<ge> 1\<close> slots and the slots the walk reads there lie inside it; and no
  \<^verbatim>\<open>get\<close>, \<^verbatim>\<open>insert\<close> or \<^verbatim>\<open>del\<close> raises \<^verbatim>\<open>IndexError\<close> or
  \<^verbatim>\<open>ZeroDivisionError\<close>. No level is longer than the capacity, which fits a C
  \<^verbatim>\<open>int\<close>, so the products and sums that give \<^verbatim>\<open>start\<close> and \<^verbatim>\<open>end\<close> do not
  overflow.
\<close>

theorem indices_in_bounds:
  assumes "reachable E H t"
  shows "(0 \<le> fht_hash H k salt \<and> fht_hash H k salt < 2 ^ 31)
    \<and> (\<forall>i < length (levels t).
          1 \<le> level_bucket_counts t ! i
          \<and> (\<forall>idx \<in> set (bucket_slots H t k i). 0 \<le> idx \<and> idx < int (length (levels t ! i)))
          \<and> int (length (levels t ! i)) \<le> capacity t)
    \<and> capacity t < 2 ^ 31
    \<and> 1 \<le> special_size t \<and> int (length (special_array t)) = special_size t
    \<and> (\<forall>idx \<in> set (special_slots H t k). 0 \<le> idx \<and> idx < special_size t)
    \<and> fht_get E H k dflt t \<notin> {Inl IndexError, Inl ZeroDivisionError}
    \<and> fst (fht_insert E H k v t) \<notin> {Inl IndexError, Inl ZeroDivisionError}
    \<and> fst (fht_delitem E H k t) \<notin> {Inl IndexError, Inl ZeroDivisionError}"
proof -
  from assms have wft: "well_formed t" by (rule reachable_wf)
  have counts: "1 \<le> level_bucket_counts t ! i" if "i < length (levels t)" for i
  proof -
    from wft that have "0 < level_bucket_counts t ! i" by (simp add: well_formed_def)
    then show ?thesis by linarith
  qed
  have special: "1 \<le> special_size t" "int (length (special_array t)) = special_size t"
    and cap: "capacity t < 2 ^ 31"
    using wft by (simp_all add: well_formed_def)
  have fits: "int (length (levels t ! i)) \<le> capacity t" if "i < length (levels t)" for i
    using level_within_capacity [OF wft that] special(1) by simp
  have "fht_get E H k dflt t \<notin> {Inl IndexError, Inl ZeroDivisionError}"
    by (simp add: fht_get_wf [OF wft] split: option.split fallback.split)
  moreover have "fst (fht_insert E H k v t) \<notin> {Inl IndexError, Inl ZeroDivisionError}"
    by (simp add: fht_insert_wf [OF wft] split: option.split)
  moreover have "fst (fht_delitem E H k t) \<notin> {Inl IndexError, Inl ZeroDivisionError}"
    by (simp add: fht_delitem_wf [OF wft] split: option.split)
  ultimately show ?thesis
    using fht_hash_range [of H k salt] counts special cap fits bucket_slots_valid [OF wft]
      special_slots_valid [OF wft, of _ H k]
    by auto
qed

theorem indices_in_bounds_witness:
  "reachable (=) hash0 (demo [Entry (Py 1) (Py 10) True, Entry0] 1)
   \<and> 0 \<le> fht_hash hash0 (Py 7) (salt0 0) \<and> fht_hash hash0 (Py 7) (salt0 0) < 2 ^ 31
   \<and> bucket_slots hash0 (demo [Entry (Py 1) (Py 10) True, Entry0] 1) (Py 7) 0 = [0, 1]
   \<and> special_slots hash0 (demo [Entry (Py 1) (Py 10) True, Entry0] 1) (Py 7) = [0]
   \<and> fht_get (=) hash0 (Py 7) NoFallback (demo [Entry (Py 1) (Py 10) True, Entry0] 1)
        \<notin> {Inl IndexError, Inl ZeroDivisionError}
   \<and> fst (fht_insert (=) hash0 (Py 7) (Py 70) (demo [Entry (Py 1) (Py 10) True, Entry0] 1))
        \<notin> {Inl IndexError, Inl ZeroDivisionError}
   \<and> fst (fht_delitem (=) hash0 (Py 7) (demo [Entry (Py 1) (Py 10) True, Entry0] 1))
        \<notin> {Inl IndexError, Inl ZeroDivisionError}"
proof -
  have "run (=) hash0 [Insert (Py 1) (Py 10)] (demo [Entry0, Entry0] 0)
      = demo [Entry (Py 1) (Py 10) True, Entry0] 1"
    by (simp add: insert_small_first)
  moreover have "reachable (=) hash0 (run (=) hash0 [Insert (Py 1) (Py 10)] (demo [Entry0, Entry0] 0))"
    by (rule reachable_small)
  ultimately have h: "reachable (=) hash0 (demo [Entry (Py 1) (Py 10) True, Entry0] 1)"
    by simp
  have b: "bucket_slots hash0 (demo [Entry (Py 1) (Py 10) True, Entry0] 1) (Py 7) 0 = [0, 1]"
    by (simp add: bucket_slots_def small_table_def py_range_0_2)
  have s: "special_slots hash0 (demo [Entry (Py 1) (Py 10) True, Entry0] 1) (Py 7) = [0]"
    by (simp add: special_slots_def small_table_def probe_limit_3 py_range_def)
  from indices_in_bounds [OF h, of "Py 7" "salt0 0" NoFallback "Py 70"] h b s show ?thesis
    by simp
qed

section \<open>Further properties\<close>

text \<open>
  X1. The example of the README: \<^verbatim>\<open>FunnelHashTable(capacity=30)\<close> has
  \<^verbatim>\<open>max_inserts = 27\<close>, \<^verbatim>\<open>beta = 7\<close>, \<^verbatim>\<open>alpha = 24\<close>, a special array of two slots
  and the level bucket counts \<^verbatim>\<open>[1, 1, 1, 1]\<close>; after \<^verbatim>\<open>table['foo'] = 1\<close> and
  \<^verbatim>\<open>table['bar'] = 2\<close> both keys are in the first level, the length is 2,
  \<^verbatim>\<open>table['foo']\<close> is 1 and \<^verbatim>\<open>'bar' in table\<close> is true.
\<close>

theorem readme_example:
  "fht_init (=) H 30 None (1 / 10) rnd = Inr (readme_table rnd (replicate 7 Entry0) 0)
   \<and> run (=) H [Insert (Py ''foo'') (Py 1), Insert (Py ''bar'') (Py 2)]
        (readme_table rnd (replicate 7 Entry0) 0) = readme_filled rnd
   \<and> fht_len (readme_filled rnd) = 2
   \<and> fht_getitem (=) H (Py ''foo'') (readme_filled rnd) = Inr (Py 1)
   \<and> fht_contains (=) H (Py ''bar'') (readme_filled rnd) = Inr True"
proof -
  have len: "fht_len (readme_filled rnd) = 2"
    by (simp add: fht_len_def readme_table_def)
  show ?thesis
    by (simp add: fht_init_def fht_new_readme len)
      (simp add: replicate_7 insert_readme_first insert_readme_second fht_getitem_def
        fht_contains_def get_readme_first get_readme_second)
qed

text \<open>
  X2. On a reachable table whose keys are equal to themselves and to no other key of the
  table, \<^verbatim>\<open>clear()\<close> returns without raising, and leaves every slot of every level
  and of the special array unoccupied and the iteration empty; the length drops by the
  number of pairs that were stored.
\<close>

theorem clear_empties_slots:
  assumes "reachable E H t"
    and "\<forall>a \<in> set (fht_keys t). \<forall>b \<in> set (fht_keys t). E a b \<longleftrightarrow> a = b"
  shows "\<exists>t'. fht_clear E H t = (Inr (), t')
    \<and> (\<forall>lv \<in> set (levels t'). \<forall>e \<in> set lv. \<not> occupied e)
    \<and> (\<forall>e \<in> set (special_array t'). \<not> occupied e)
    \<and> fht_items t' = []
    \<and> fht_len t' = fht_len t - int (length (fht_items t))"
proof -
  from assms(1) have "well_formed t" "on_path H t"
    by (simp_all add: reachable_wf reachable_on_path)
  from delete_each_all [OF this refl assms(2)] obtain t' where
    "delete_each E H (fht_keys t) t = (Inr (), t')" "fht_items t' = []"
    "num_inserts t' = num_inserts t - int (length (fht_keys t))"
    by blast
  then show ?thesis
    by (auto simp: fht_clear_def fht_len_def fht_keys_def items_empty_iff all_entries_def)
qed

theorem clear_empties_slots_witness:
  "reachable (=) hash0 (demo [Entry (Py 1) (Py 10) True, Entry (Py 2) (Py 20) True] 2)
   \<and> (\<exists>t'. fht_clear (=) hash0 (demo [Entry (Py 1) (Py 10) True, Entry (Py 2) (Py 20) True] 2)
          = (Inr (), t')
        \<and> (\<forall>lv \<in> set (levels t'). \<forall>e \<in> set lv. \<not> occupied e)
        \<and> (\<forall>e \<in> set (special_array t'). \<not> occupied e)
        \<and> fht_items t' = []
        \<and> fht_len t' = 0)"
proof -
  have "run (=) hash0 [Insert (Py 1) (Py 10), Insert (Py 2) (Py 20)] (demo [Entry0, Entry0] 0)
      = demo [Entry (Py 1) (Py 10) True, Entry (Py 2) (Py 20) True] 2"
    by (simp add: insert_small_first insert_small_second)
  moreover have "reachable (=) hash0
      (run (=) hash0 [Insert (Py 1) (Py 10), Insert (Py 2) (Py 20)] (demo [Entry0, Entry0] 0))"
    by (rule reachable_small)
  ultimately have h: "reachable (=) hash0 (demo [Entry (Py 1) (Py 10) True, Entry (Py 2) (Py 20) True] 2)"
    by simp
  have e: "\<forall>a \<in> set (fht_keys (demo [Entry (Py 1) (Py 10) True, Entry (Py 2) (Py 20) True] 2)).
      \<forall>b \<in> set (fht_keys (demo [Entry (Py 1) (Py 10) True, Entry (Py 2) (Py 20) True] 2)).
        (a = b) \<longleftrightarrow> a = b"
    by simp
  have n: "fht_len (demo [Entry (Py 1) (Py 10) True, Entry (Py 2) (Py 20) True] 2)
      - int (length (fht_items (demo [Entry (Py 1) (Py 10) True, Entry (Py 2) (Py 20) True] 2))) = 0"
    by (simp add: len_small items_small)
  from clear_empties_slots [OF h e] h show ?thesis
    unfolding n by blast
qed

text \<open>
  X3. An \<^verbatim>\<open>insert\<close> that raises, for whichever reason, leaves the table as it was.
\<close>

theorem failed_insert_keeps_table:
  assumes "fht_insert E H k v t = (Inl er, t')"
  shows "t' = t"
  using assms
  by (auto simp: fht_insert_def split: if_splits sum.splits option.splits prod.splits slot_ref.splits)

theorem failed_insert_keeps_table_witness:
  "fht_insert (=) hash0 (Py 3) (Py 30) (demo [Entry (Py 1) (Py 10) True, Entry (Py 2) (Py 20) True] 2)
     = (Inl HashTableFull, demo [Entry (Py 1) (Py 10) True, Entry (Py 2) (Py 20) True] 2)"
proof -
  have "fst (fht_insert (=) hash0 (Py 3) (Py 30)
      (demo [Entry (Py 1) (Py 10) True, Entry (Py 2) (Py 20) True] 2)) = Inl HashTableFull"
    by (simp add: fht_insert_def small_table_def)
  then obtain t' where h: "fht_insert (=) hash0 (Py 3) (Py 30)
      (demo [Entry (Py 1) (Py 10) True, Entry (Py 2) (Py 20) True] 2) = (Inl HashTableFull, t')"
    by (metis prod.collapse)
  from failed_insert_keeps_table [OF h] h show ?thesis by simp
qed

text \<open>
  X4. A \<^verbatim>\<open>del table[k]\<close> that succeeds removes from the iteration one pair, the pair
  \<open>(k', v)\<close> of a key \<open>k'\<close> equal to \<open>k\<close> with the value \<open>v\<close> that \<^verbatim>\<open>get(k)\<close> returned
  before, and subtracts one from the length.
\<close>

theorem delete_removes_pair:
  assumes "well_formed t" and "fht_delitem E H k t = (Inr (), t')"
  shows "\<exists>k' v. E k' k \<and> fht_get E H k NoFallback t = Inr v
    \<and> mset (fht_items t') = mset (fht_items t) - {#(k', v)#}
    \<and> (k', v) \<in> set (fht_items t)
    \<and> fht_len t' = fht_len t - 1"
proof -
  from assms obtain r where r: "find (\<lambda>r. lookup_test E k (entry_at t r)) (probes H t k) = Some r"
    and t': "t' = counted (- 1) r (with_entry t r Entry0)"
    by (auto simp: fht_delitem_wf split: option.splits)
  from r have valid: "valid_slot t r" and here: "lookup_test E k (entry_at t r)"
    using probes_valid [OF assms(1)] find_SomeD by fastforce+
  define k' where "k' = key (entry_at t r)"
  from here have pair: "pair_of (entry_at t r) = (k', val (entry_at t r))"
    and occ: "occupied (entry_at t r)" and eq: "E k' k"
    by (simp_all add: pair_of_def lookup_test_def k'_def)
  have "fht_get E H k NoFallback t = Inr (val (entry_at t r))"
    by (simp add: fht_get_wf [OF assms(1)] r)
  moreover have "mset (fht_items t') = mset (fht_items t) - {#(k', val (entry_at t r))#}"
    using occ by (simp add: t' mset_items_with_entry [OF valid] pair)
  moreover have "(k', val (entry_at t r)) \<in> set (fht_items t)"
    using entry_at_in_entries [OF valid] occ pair by (force simp: fht_items_entries)
  moreover have "fht_len t' = fht_len t - 1"
    by (simp add: fht_len_def t' num_inserts_counted)
  ultimately show ?thesis using eq by blast
qed

theorem delete_removes_pair_witness:
  "well_formed (demo [Entry (Py 1) (Py 10) True, Entry (Py 2) (Py 20) True] 2)
   \<and> fht_delitem (=) hash0 (Py 2) (demo [Entry (Py 1) (Py 10) True, Entry (Py 2) (Py 20) True] 2)
       = (Inr (), demo [Entry (Py 1) (Py 10) True, Entry0] 1)
   \<and> (\<exists>v. fht_get (=) hash0 (Py 2) NoFallback (demo [Entry (Py 1) (Py 10) True, Entry (Py 2) (Py 20) True] 2)
            = Inr v
        \<and> mset (fht_items (demo [Entry (Py 1) (Py 10) True, Entry0] 1))
            = mset (fht_items (demo [Entry (Py 1) (Py 10) True, Entry (Py 2) (Py 20) True] 2))
                - {#(Py 2, v)#}
        \<and> (Py 2, v) \<in> set (fht_items (demo [Entry (Py 1) (Py 10) True, Entry (Py 2) (Py 20) True] 2))
        \<and> fht_len (demo [Entry (Py 1) (Py 10) True, Entry0] 1)
            = fht_len (demo [Entry (Py 1) (Py 10) True, Entry (Py 2) (Py 20) True] 2) - 1)"
proof -
  have h1: "well_formed (demo [Entry (Py 1) (Py 10) True, Entry (Py 2) (Py 20) True] 2)"
    by (rule wf_small_table)
  have h2: "fht_delitem (=) hash0 (Py 2) (demo [Entry (Py 1) (Py 10) True, Entry (Py 2) (Py 20) True] 2)
       = (Inr (), demo [Entry (Py 1) (Py 10) True, Entry0] 1)"
    by (simp add: delitem_small_second)
  from delete_removes_pair [OF h1 h2] h1 h2 show ?thesis by auto
qed

end
